theory Spec2Isabelle
  imports Main "HOL-Library.Word" "HOL-Library.Log_Nat"
begin

section \<open>Machine arithmetic of the program\<close>

text \<open>
  \<^verbatim>\<open>typedef uint8_t BYTE;\<close> is an 8-bit word.  C \<^verbatim>\<open>int\<close> values are modelled by
  \<open>int\<close>; all the quantities of the filters (pixel sums, dimensions, strengths in 1..100)
  stay far inside the 32-bit range, so no wrap-around is written out for them.
  C integer division and remainder truncate towards zero; a zero divisor is undefined
  behaviour and is made a fault wherever the source can reach it.
\<close>

type_synonym BYTE = "8 word"

definition c_div :: "int \<Rightarrow> int \<Rightarrow> int" where
  "c_div a b = sgn a * sgn b * (\<bar>a\<bar> div \<bar>b\<bar>)"

definition c_mod :: "int \<Rightarrow> int \<Rightarrow> int" where
  "c_mod a b = a - b * c_div a b"

text \<open>Storing an \<^verbatim>\<open>int\<close> into a \<^verbatim>\<open>BYTE\<close> keeps the low 8 bits.\<close>

definition to_byte :: "int \<Rightarrow> BYTE" where
  "to_byte i = word_of_int i"

text \<open>\<^verbatim>\<open>std::clamp(v, lo, hi)\<close> on \<^verbatim>\<open>int\<close>.\<close>

definition clamp_int :: "int \<Rightarrow> int \<Rightarrow> int \<Rightarrow> int" where
  "clamp_int v lo hi = (if v < lo then lo else if hi < v then hi else v)"

subsection \<open>Binary floating point\<close>

text \<open>
  \<^verbatim>\<open>float\<close> and \<^verbatim>\<open>double\<close> are IEEE binary32 and binary64, every operation
  rounded to nearest, ties to even.  A finite floating-point value is the rational number it
  denotes; \<open>fl_round p\<close> rounds a rational to \<open>p\<close> significant bits.  Exponent range
  (overflow, subnormal numbers) is not modelled: the magnitudes that occur are quotients and
  products of 32-bit integers and lie inside the normal range of both formats.
\<close>

definition pow2 :: "int \<Rightarrow> rat" where
  "pow2 e = (if 0 \<le> e then 2 ^ nat e else 1 / 2 ^ nat (- e))"

text \<open>For \<open>a > 0\<close>, the integer \<open>e\<close> with \<open>2\<^sup>e \<le> a < 2\<^sup>e\<^sup>+\<^sup>1\<close>.\<close>

definition binary_exponent :: "rat \<Rightarrow> int" where
  "binary_exponent a =
     (if 1 \<le> a then bitlen \<lfloor>a\<rfloor> - 1 else - bitlen (\<lceil>1 / a\<rceil> - 1))"

definition round_ties_even :: "rat \<Rightarrow> int" where
  "round_ties_even x =
     (let f = \<lfloor>x\<rfloor>; r = x - of_int f
      in if r < 1 / 2 then f else if 1 / 2 < r then f + 1 else if even f then f else f + 1)"

definition fl_round :: "nat \<Rightarrow> rat \<Rightarrow> rat" where
  "fl_round p x =
     (if x = 0 then 0
      else let u = pow2 (binary_exponent \<bar>x\<bar> + 1 - int p)
           in of_int (round_ties_even (x / u)) * u)"

definition f32 :: "rat \<Rightarrow> rat" where
  "f32 = fl_round 24"


text \<open>Conversion of a floating-point value to an integer type truncates towards zero.\<close>

definition c_trunc :: "rat \<Rightarrow> int" where
  "c_trunc q = (if 0 \<le> q then \<lfloor>q\<rfloor> else \<lceil>q\<rceil>)"


text \<open>\<^verbatim>\<open>std::clamp\<close> on \<^verbatim>\<open>float\<close>.\<close>

definition clamp_float :: "rat \<Rightarrow> rat \<Rightarrow> rat \<Rightarrow> rat" where
  "clamp_float v lo hi = (if v < lo then lo else if hi < v then hi else v)"

text \<open>Behaviour the C++ standard leaves undefined, where the source can reach it.\<close>

datatype fault = DivisionByZero | BufferOverflow | FloatToIntUndefined

section \<open>Data model\<close>

record Pixeldata =
  B :: BYTE
  G :: BYTE
  R :: BYTE

record ImageDetails =
  width :: int
  height :: int
  pixels :: "Pixeldata list list"

text \<open>
  \<^verbatim>\<open>struct AsciiFilter { int width; int height; char** pixels; }\<close>; the fields carry the
  prefix \<open>ascii_\<close> to keep them apart from those of \<open>ImageDetails\<close>.
\<close>

record AsciiFilter =
  ascii_width :: int
  ascii_height :: int
  ascii_pixels :: "char list list"

text \<open>
  The invariant of a decoded image: \<open>pixels\<close> has \<open>height\<close> rows of \<open>width\<close> pixels each.
  On such an image every array access of the filters is in range.
\<close>

definition wf_image :: "ImageDetails \<Rightarrow> bool" where
  "wf_image img \<longleftrightarrow>
     0 \<le> width img \<and> 0 \<le> height img \<and>
     length (pixels img) = nat (height img) \<and>
     (\<forall>row \<in> set (pixels img). length row = nat (width img))"

definition wf_ascii :: "AsciiFilter \<Rightarrow> bool" where
  "wf_ascii a \<longleftrightarrow>
     0 \<le> ascii_width a \<and> 0 \<le> ascii_height a \<and>
     length (ascii_pixels a) = nat (ascii_height a) \<and>
     (\<forall>row \<in> set (ascii_pixels a). length row = nat (ascii_width a))"

text \<open>The assignment \<^verbatim>\<open>p[y][x] = v\<close> on an array of rows.\<close>

definition set_pixel :: "'a list list \<Rightarrow> nat \<Rightarrow> nat \<Rightarrow> 'a \<Rightarrow> 'a list list" where
  "set_pixel ps y x v = ps[y := (ps ! y)[x := v]]"

text \<open>\<^verbatim>\<open>copy_pixels\<close>: a fresh \<open>height \<times> width\<close> array holding \<open>source[y][x]\<close>.\<close>

definition copy_pixels :: "Pixeldata list list \<Rightarrow> int \<Rightarrow> int \<Rightarrow> Pixeldata list list" where
  "copy_pixels source h w =
     map (\<lambda>y. map (\<lambda>x. source ! y ! x) [0..<nat w]) [0..<nat h]"

section \<open>Noise reduction\<close>

text \<open>
  The first lines of \<^verbatim>\<open>applyNoiseReduction\<close>:
  \<^verbatim>\<open>
    // kernal size must be odd
    if (filter_strength % 2 != 0) { filter_strength++; filter_strength /= 2; }
    int kernel_size = 3 + filter_strength;
    int offset = kernel_size / 2;
  \<close>
\<close>

definition noise_strength :: "int \<Rightarrow> int" where
  "noise_strength filter_strength =
     (if c_mod filter_strength 2 \<noteq> 0 then c_div (filter_strength + 1) 2 else filter_strength)"

definition noise_kernel_size :: "int \<Rightarrow> int" where
  "noise_kernel_size filter_strength = 3 + noise_strength filter_strength"

definition noise_offset :: "int \<Rightarrow> int" where
  "noise_offset filter_strength = c_div (noise_kernel_size filter_strength) 2"

text \<open>
  \<^verbatim>\<open>ascending_sort(colour, num_elements)\<close>: the exchange sort of the source, on the first
  \<open>num_elements\<close> cells of the array.
\<close>

definition ascending_sort :: "BYTE list \<Rightarrow> int \<Rightarrow> BYTE list" where
  "ascending_sort colour num_elements =
     fold (\<lambda>i. fold (\<lambda>j c. if c ! j < c ! i then c[i := c ! j, j := c ! i] else c)
                      [i + 1..<nat num_elements])
          [0..<nat num_elements] colour"

text \<open>
  The sample arrays \<^verbatim>\<open>BYTE Red[kernel_size * kernel_size]\<close> (and \<open>Green\<close>, \<open>Blue\<close>) with
  the running \<open>index\<close>: the model keeps the cells written so far, so \<open>index\<close> is their
  number.  A write at an index that is not below \<open>kernel_size * kernel_size\<close> leaves the
  array: the fault \<open>BufferOverflow\<close>.
\<close>

type_synonym samples = "BYTE list \<times> BYTE list \<times> BYTE list"

definition collect_sample :: "int \<Rightarrow> Pixeldata \<Rightarrow> fault + samples \<Rightarrow> fault + samples" where
  "collect_sample kernel_size pixel acc =
     (case acc of
        Inl e \<Rightarrow> Inl e
      | Inr (Red, Green, Blue) \<Rightarrow>
          if int (length Red) < kernel_size * kernel_size
          then Inr (Red @ [R pixel], Green @ [G pixel], Blue @ [B pixel])
          else Inl BufferOverflow)"

text \<open>
  The two window loops \<^verbatim>\<open>for (ky = -offset; ky <= offset; ky++)\<close>,
  \<^verbatim>\<open>for (kx = -offset; kx <= offset; kx++)\<close> with the bounds check on the sample position.
\<close>

definition collect_window ::
  "Pixeldata list list \<Rightarrow> int \<Rightarrow> int \<Rightarrow> int \<Rightarrow> int \<Rightarrow> int \<Rightarrow> int \<Rightarrow> fault + samples" where
  "collect_window original_pixels h w kernel_size offset y x =
     fold (\<lambda>ky. fold (\<lambda>kx acc.
              let sample_y = y + ky; sample_x = x + kx
              in if 0 \<le> sample_y \<and> sample_y < h \<and> 0 \<le> sample_x \<and> sample_x < w
                 then collect_sample kernel_size
                        (original_pixels ! nat sample_y ! nat sample_x) acc
                 else acc)
            [- offset..offset])
          [- offset..offset] (Inr ([], [], []))"

text \<open>
  One iteration of the pixel loop: collect, sort the three arrays, and store the entries at
  \<open>index / 2\<close> when \<open>index > 0\<close>.
\<close>

definition noise_pixel ::
  "Pixeldata list list \<Rightarrow> int \<Rightarrow> int \<Rightarrow> int \<Rightarrow> int \<Rightarrow> nat \<Rightarrow> nat \<Rightarrow>
     fault + Pixeldata list list \<Rightarrow> fault + Pixeldata list list" where
  "noise_pixel original_pixels h w kernel_size offset y x acc =
     (case acc of
        Inl e \<Rightarrow> Inl e
      | Inr ps \<Rightarrow>
          (case collect_window original_pixels h w kernel_size offset (int y) (int x) of
             Inl e \<Rightarrow> Inl e
           | Inr (Red, Green, Blue) \<Rightarrow>
               let index = int (length Red);
                   Red' = ascending_sort Red index;
                   Green' = ascending_sort Green index;
                   Blue' = ascending_sort Blue index
               in if 0 < index
                  then Inr (set_pixel ps y x
                         \<lparr>B = Blue' ! nat (c_div index 2),
                          G = Green' ! nat (c_div index 2),
                          R = Red' ! nat (c_div index 2)\<rparr>)
                  else Inr ps))"

definition applyNoiseReduction :: "ImageDetails \<Rightarrow> int \<Rightarrow> fault + ImageDetails" where
  "applyNoiseReduction img filter_strength =
     (let kernel_size = noise_kernel_size filter_strength;
          offset = noise_offset filter_strength;
          original_pixels = copy_pixels (pixels img) (height img) (width img)
      in case fold (\<lambda>y. fold (\<lambda>x. noise_pixel original_pixels (height img) (width img)
                                     kernel_size offset y x)
                              [0..<nat (width img)])
                   [0..<nat (height img)] (Inr (pixels img)) of
           Inl e \<Rightarrow> Inl e
         | Inr ps \<Rightarrow> Inr (img\<lparr>pixels := ps\<rparr>))"

section \<open>Point filters\<close>

text \<open>
  \<^verbatim>\<open>int average = (p.R + p.G + p.B) / 3;\<close> stored into all three channels.
\<close>

definition grayscale_pixel :: "Pixeldata \<Rightarrow> Pixeldata" where
  "grayscale_pixel p =
     (let average = c_div (uint (R p) + uint (G p) + uint (B p)) 3
      in \<lparr>B = to_byte average, G = to_byte average, R = to_byte average\<rparr>)"

definition applyGrayscale :: "ImageDetails \<Rightarrow> ImageDetails" where
  "applyGrayscale img =
     img\<lparr>pixels :=
       fold (\<lambda>y. fold (\<lambda>x ps. set_pixel ps y x (grayscale_pixel (ps ! y ! x)))
                        [0..<nat (width img)])
            [0..<nat (height img)] (pixels img)\<rparr>"




text \<open>
  Flip: \<^verbatim>\<open>std::swap(image.pixels[y][x], image.pixels[y][image.width - x - 1])\<close> for
  \<open>x < width / 2\<close>, in every row.
\<close>

definition swap_pixels :: "'a list list \<Rightarrow> nat \<Rightarrow> nat \<Rightarrow> nat \<Rightarrow> 'a list list" where
  "swap_pixels ps y x x' =
     set_pixel (set_pixel ps y x (ps ! y ! x')) y x' (ps ! y ! x)"

definition applyFlip :: "ImageDetails \<Rightarrow> ImageDetails" where
  "applyFlip img =
     img\<lparr>pixels :=
       fold (\<lambda>y. fold (\<lambda>x ps. swap_pixels ps y x (nat (width img - int x - 1)))
                        [0..<nat (c_div (width img) 2)])
            [0..<nat (height img)] (pixels img)\<rparr>"

section \<open>Convolution filters\<close>

text \<open>
  \<^verbatim>\<open>const float GAUSSIAN_KERNEL[3][3]\<close>, with entries \<^verbatim>\<open>1.0f/16\<close>, \<^verbatim>\<open>2.0f/16\<close>,
  \<^verbatim>\<open>4.0f/16\<close>.
\<close>

definition GAUSSIAN_KERNEL :: "rat list list" where
  "GAUSSIAN_KERNEL =
     [[f32 (1 / 16), f32 (2 / 16), f32 (1 / 16)],
      [f32 (2 / 16), f32 (4 / 16), f32 (2 / 16)],
      [f32 (1 / 16), f32 (2 / 16), f32 (1 / 16)]]"

text \<open>
  The kernel loops of \<^verbatim>\<open>applyGaussianBlur\<close> at \<open>(y, x)\<close>, with \<open>offset = 1\<close>: the three
  \<^verbatim>\<open>float\<close> sums over \<^verbatim>\<open>original_pixels[y + ky][x + kx]\<close>, then
  \<^verbatim>\<open>static_cast<BYTE>(std::clamp(sum, 0.0f, 255.0f))\<close>.
\<close>

definition blur_sums :: "Pixeldata list list \<Rightarrow> nat \<Rightarrow> nat \<Rightarrow> rat \<times> rat \<times> rat" where
  "blur_sums original_pixels y x =
     fold (\<lambda>ky. fold (\<lambda>kx (sumR, sumG, sumB).
              let weight = GAUSSIAN_KERNEL ! nat (ky + 1) ! nat (kx + 1);
                  pixel = original_pixels ! nat (int y + ky) ! nat (int x + kx)
              in (f32 (sumR + f32 (of_int (uint (R pixel)) * weight)),
                  f32 (sumG + f32 (of_int (uint (G pixel)) * weight)),
                  f32 (sumB + f32 (of_int (uint (B pixel)) * weight))))
            [- 1..1])
          [- 1..1] (0, 0, 0)"

definition blur_pixel :: "Pixeldata list list \<Rightarrow> nat \<Rightarrow> nat \<Rightarrow> Pixeldata" where
  "blur_pixel original_pixels y x =
     (case blur_sums original_pixels y x of
        (sumR, sumG, sumB) \<Rightarrow>
          \<lparr>B = to_byte (c_trunc (clamp_float sumB 0 255)),
           G = to_byte (c_trunc (clamp_float sumG 0 255)),
           R = to_byte (c_trunc (clamp_float sumR 0 255))\<rparr>)"

definition applyGaussianBlur :: "ImageDetails \<Rightarrow> ImageDetails" where
  "applyGaussianBlur img =
     (let original_pixels = copy_pixels (pixels img) (height img) (width img)
      in img\<lparr>pixels :=
           fold (\<lambda>y. fold (\<lambda>x ps. set_pixel ps y x (blur_pixel original_pixels y x))
                            [1..<nat (width img - 1)])
                [1..<nat (height img - 1)] (pixels img)\<rparr>)"









section \<open>Sharpen\<close>

text \<open>
  \<^verbatim>\<open>subtract_images(a, b, result)\<close>: \<^verbatim>\<open>result.pixels[y][x].R = a.pixels[y][x].R - b.pixels[y][x].R\<close>,
  the difference of the promoted \<^verbatim>\<open>int\<close> values stored into a \<^verbatim>\<open>BYTE\<close>.
\<close>

definition subtract_pixel :: "Pixeldata \<Rightarrow> Pixeldata \<Rightarrow> Pixeldata" where
  "subtract_pixel pa pb =
     \<lparr>B = to_byte (uint (B pa) - uint (B pb)),
      G = to_byte (uint (G pa) - uint (G pb)),
      R = to_byte (uint (R pa) - uint (R pb))\<rparr>"

definition subtract_images :: "ImageDetails \<Rightarrow> ImageDetails \<Rightarrow> ImageDetails \<Rightarrow> ImageDetails" where
  "subtract_images a b result =
     result\<lparr>pixels :=
       fold (\<lambda>y. fold (\<lambda>x ps. set_pixel ps y x
                          (subtract_pixel (pixels a ! y ! x) (pixels b ! y ! x)))
                        [0..<nat (width a)])
            [0..<nat (height a)] (pixels result)\<rparr>"

text \<open>
  \<^verbatim>\<open>multiply_image(image, scalar)\<close>:
  \<^verbatim>\<open>std::clamp(int(image.pixels[y][x].R * scalar), 0, 255)\<close> with a \<^verbatim>\<open>float\<close> scalar.
\<close>

definition multiply_channel :: "rat \<Rightarrow> BYTE \<Rightarrow> BYTE" where
  "multiply_channel scalar c =
     to_byte (clamp_int (c_trunc (f32 (of_int (uint c) * scalar))) 0 255)"

definition multiply_pixel :: "rat \<Rightarrow> Pixeldata \<Rightarrow> Pixeldata" where
  "multiply_pixel scalar p =
     \<lparr>B = multiply_channel scalar (B p),
      G = multiply_channel scalar (G p),
      R = multiply_channel scalar (R p)\<rparr>"

definition multiply_image :: "ImageDetails \<Rightarrow> rat \<Rightarrow> ImageDetails" where
  "multiply_image img scalar =
     img\<lparr>pixels :=
       fold (\<lambda>y. fold (\<lambda>x ps. set_pixel ps y x (multiply_pixel scalar (ps ! y ! x)))
                        [0..<nat (width img)])
            [0..<nat (height img)] (pixels img)\<rparr>"

text \<open>
  \<^verbatim>\<open>add_images(a, b, result)\<close>:
  \<^verbatim>\<open>std::clamp(int(a.pixels[y][x].R + b.pixels[y][x].R), 0, 255)\<close>.  Its one call is
  \<^verbatim>\<open>add_images(image, sharpend_mask, image)\<close>, where \<open>a\<close> and \<open>result\<close> are the same
  object: \<open>add_images_in_place\<close> is that call, reading \<open>a\<close>'s pixel from the array being
  written.
\<close>

definition add_pixel :: "Pixeldata \<Rightarrow> Pixeldata \<Rightarrow> Pixeldata" where
  "add_pixel pa pb =
     \<lparr>B = to_byte (clamp_int (uint (B pa) + uint (B pb)) 0 255),
      G = to_byte (clamp_int (uint (G pa) + uint (G pb)) 0 255),
      R = to_byte (clamp_int (uint (R pa) + uint (R pb)) 0 255)\<rparr>"

definition add_images_in_place :: "ImageDetails \<Rightarrow> ImageDetails \<Rightarrow> ImageDetails" where
  "add_images_in_place a b =
     a\<lparr>pixels :=
       fold (\<lambda>y. fold (\<lambda>x ps. set_pixel ps y x (add_pixel (ps ! y ! x) (pixels b ! y ! x)))
                        [0..<nat (width a)])
            [0..<nat (height a)] (pixels a)\<rparr>"

text \<open>The closing loop of \<^verbatim>\<open>applySharpen\<close>: \<^verbatim>\<open>std::clamp(int(p.R), 0, 255)\<close> per channel.\<close>

definition clamp_pixel :: "Pixeldata \<Rightarrow> Pixeldata" where
  "clamp_pixel p =
     \<lparr>B = to_byte (clamp_int (uint (B p)) 0 255),
      G = to_byte (clamp_int (uint (G p)) 0 255),
      R = to_byte (clamp_int (uint (R p)) 0 255)\<rparr>"

definition applySharpen :: "ImageDetails \<Rightarrow> int \<Rightarrow> ImageDetails" where
  "applySharpen img filter_strength =
     (let blured_image = applyGaussianBlur
            \<lparr>width = width img, height = height img,
             pixels = copy_pixels (pixels img) (height img) (width img)\<rparr>;
          sharpend_mask =
            \<lparr>width = width img, height = height img,
             pixels = copy_pixels (pixels img) (height img) (width img)\<rparr>;
          sharpend_mask = subtract_images img blured_image sharpend_mask;
          sharpend_mask = multiply_image sharpend_mask (f32 (of_int filter_strength));
          img = add_images_in_place img sharpend_mask
      in img\<lparr>pixels :=
           fold (\<lambda>y. fold (\<lambda>x ps. set_pixel ps y x (clamp_pixel (ps ! y ! x)))
                            [0..<nat (width img)])
                [0..<nat (height img)] (pixels img)\<rparr>)"

text \<open>
  The sharpen pipeline as the specification words it, channel by channel: the mask is the
  difference modulo 256, then multiplied by the strength and clamped to 0..255, then added to
  the original and clamped to 0..255.
\<close>

definition sharpen_channel_spec :: "int \<Rightarrow> BYTE \<Rightarrow> BYTE \<Rightarrow> BYTE" where
  "sharpen_channel_spec strength grid blurred =
     (let mask = uint (grid - blurred);
          mask = max 0 (min 255 (mask * strength))
      in to_byte (max 0 (min 255 (uint grid + mask))))"

definition sharpen_pixel_spec :: "int \<Rightarrow> Pixeldata \<Rightarrow> Pixeldata \<Rightarrow> Pixeldata" where
  "sharpen_pixel_spec strength grid blurred =
     \<lparr>B = sharpen_channel_spec strength (B grid) (B blurred),
      G = sharpen_channel_spec strength (G grid) (G blurred),
      R = sharpen_channel_spec strength (R grid) (R blurred)\<rparr>"

definition sharpen_spec :: "ImageDetails \<Rightarrow> int \<Rightarrow> ImageDetails" where
  "sharpen_spec img strength =
     img\<lparr>pixels :=
       map2 (map2 (sharpen_pixel_spec strength)) (pixels img) (pixels (applyGaussianBlur img))\<rparr>"

section \<open>Resize and character art\<close>

text \<open>
  \<^verbatim>\<open>changeImageSize(image, new_width)\<close>.  The new height is
  \<^verbatim>\<open>static_cast<int>(image.height * (new_width / (float)image.width) * aspect_ratio)\<close> with
  \<^verbatim>\<open>float aspect_ratio = 0.4f\<close>: three \<^verbatim>\<open>int\<close> to \<^verbatim>\<open>float\<close> conversions, a division and two
  multiplications in binary32, then truncation.
\<close>

definition resize_height_float :: "ImageDetails \<Rightarrow> int \<Rightarrow> rat" where
  "resize_height_float img new_width =
     f32 (f32 (f32 (of_int (height img))
                 * f32 (f32 (of_int new_width) / f32 (of_int (width img))))
            * f32 (2 / 5))"

text \<open>
  The box of source pixels averaged into the new pixel \<open>(y, x)\<close>: sums and count over
  \<open>ky < kernal_size_y\<close>, \<open>kx < kernal_size_x\<close>, guarded by
  \<^verbatim>\<open>sourceY < image.height && sourceX < image.width\<close>; then \<^verbatim>\<open>if (count == 0) count = 1\<close>
  and the three integer means.
\<close>

definition box_sums ::
  "ImageDetails \<Rightarrow> int \<Rightarrow> int \<Rightarrow> int \<Rightarrow> int \<Rightarrow> int \<times> int \<times> int \<times> int" where
  "box_sums img kernal_size_x kernal_size_y y x =
     fold (\<lambda>ky. fold (\<lambda>kx (sumR, sumG, sumB, count).
              let sourceY = y * kernal_size_y + ky; sourceX = x * kernal_size_x + kx
              in if sourceY < height img \<and> sourceX < width img
                 then (sumR + uint (R (pixels img ! nat sourceY ! nat sourceX)),
                       sumG + uint (G (pixels img ! nat sourceY ! nat sourceX)),
                       sumB + uint (B (pixels img ! nat sourceY ! nat sourceX)),
                       count + 1)
                 else (sumR, sumG, sumB, count))
            [0..kernal_size_x - 1])
          [0..kernal_size_y - 1] (0, 0, 0, 0)"

definition box_average :: "ImageDetails \<Rightarrow> int \<Rightarrow> int \<Rightarrow> int \<Rightarrow> int \<Rightarrow> Pixeldata" where
  "box_average img kernal_size_x kernal_size_y y x =
     (case box_sums img kernal_size_x kernal_size_y y x of
        (sumR, sumG, sumB, count) \<Rightarrow>
          let count = (if count = 0 then 1 else count)
          in \<lparr>B = to_byte (c_div sumB count),
              G = to_byte (c_div sumG count),
              R = to_byte (c_div sumR count)\<rparr>)"

text \<open>The two messages \<^verbatim>\<open>changeImageSize\<close> writes to \<^verbatim>\<open>std::cerr\<close> before returning.\<close>

datatype resize_error = NewSizeLarger | KernelSizeNotPositive

text \<open>
  The result is the message written, if any, and the image afterwards.  Undefined behaviour
  on the way is a fault: the conversion of a non-finite or out-of-range \<^verbatim>\<open>float\<close> to
  \<^verbatim>\<open>int\<close> (a zero width makes the quotient infinite or NaN), and the integer divisions
  \<^verbatim>\<open>image.width / new_width\<close> and \<^verbatim>\<open>image.height / new_height\<close> by zero, which the source
  evaluates before it tests the kernel sizes.
\<close>

definition changeImageSize ::
  "ImageDetails \<Rightarrow> int \<Rightarrow> fault + (resize_error option \<times> ImageDetails)" where
  "changeImageSize img new_width =
     (if width img = 0 then Inl FloatToIntUndefined
      else
        let new_height = c_trunc (resize_height_float img new_width)
        in if new_height < - (2 ^ 31) \<or> 2 ^ 31 \<le> new_height then Inl FloatToIntUndefined
           else if new_width > width img \<or> new_height > height img
           then Inr (Some NewSizeLarger, img)
           else if new_width = 0 then Inl DivisionByZero
           else if new_height = 0 then Inl DivisionByZero
           else
             let kernal_size_x = c_div (width img) new_width;
                 kernal_size_y = c_div (height img) new_height
             in if kernal_size_x \<le> 0 \<or> kernal_size_y \<le> 0
                then Inr (Some KernelSizeNotPositive, img)
                else Inr (None,
                       \<lparr>width = new_width, height = new_height,
                        pixels = map (\<lambda>y. map (\<lambda>x.
                                   box_average img kernal_size_x kernal_size_y (int y) (int x))
                                   [0..<nat new_width])
                                 [0..<nat new_height]\<rparr>))"

text \<open>The brightness ramp \<^verbatim>\<open>ascii_chars\<close> of \<^verbatim>\<open>ASCII_filter\<close>.\<close>

definition ascii_chars :: string where
  "ascii_chars =
     '' `.-'' @ [CHR 0x27] @
     '':_,^=;><+!rc*/z?sLTv)J7(|Fi{C}fI31tlu[neoZ5Yxjya]2ESwqkP6h9d4VpOGbUAKXHm8RD#$Bg0MNWQ%&@''"

text \<open>
  The scan for \<open>min_val\<close> and \<open>max_val\<close>, started at 255 and 0; \<open>min_max_step\<close> is the
  loop body \<^verbatim>\<open>if (val < min_val) min_val = val; if (val > max_val) max_val = val;\<close>.
\<close>

definition min_max_step :: "int \<Rightarrow> int \<times> int \<Rightarrow> int \<times> int" where
  "min_max_step val = (\<lambda>(min_val, max_val).
     let min_val = (if val < min_val then val else min_val);
         max_val = (if val > max_val then val else max_val)
     in (min_val, max_val))"

definition scan_min_max :: "Pixeldata list list \<Rightarrow> int \<Rightarrow> int \<Rightarrow> int \<times> int" where
  "scan_min_max ps h w =
     fold (\<lambda>y. fold (\<lambda>x. min_max_step (uint (R (ps ! y ! x)))) [0..<nat w])
          [0..<nat h] (255, 0)"

text \<open>
  One iteration of the stretch loop:
  \<^verbatim>\<open>int stretched = 255 * (val - min_val) / (max_val - min_val + 1);\<close> stored into the three
  channels.  A zero divisor is a fault.
\<close>

definition stretch_pixel :: "int \<Rightarrow> int \<Rightarrow> Pixeldata \<Rightarrow> Pixeldata" where
  "stretch_pixel min_val max_val p =
     (let val = uint (R p);
          stretched = c_div (255 * (val - min_val)) (max_val - min_val + 1)
      in \<lparr>B = to_byte stretched, G = to_byte stretched, R = to_byte stretched\<rparr>)"

definition stretch_step ::
  "int \<Rightarrow> int \<Rightarrow> nat \<Rightarrow> nat \<Rightarrow> fault + Pixeldata list list \<Rightarrow> fault + Pixeldata list list" where
  "stretch_step min_val max_val y x acc =
     (case acc of
        Inl e \<Rightarrow> Inl e
      | Inr ps \<Rightarrow>
          if max_val - min_val + 1 = 0 then Inl DivisionByZero
          else Inr (set_pixel ps y x (stretch_pixel min_val max_val (ps ! y ! x))))"

text \<open>
  \<^verbatim>\<open>int index = (image.pixels[y][x].R * (num_chars - 1)) / 255;\<close> and the character
  \<^verbatim>\<open>ascii_chars[index]\<close>.
\<close>

definition ramp_index :: "Pixeldata \<Rightarrow> int" where
  "ramp_index p = c_div (uint (R p) * (int (length ascii_chars) - 1)) 255"

definition ASCII_filter :: "ImageDetails \<Rightarrow> fault + (ImageDetails \<times> AsciiFilter)" where
  "ASCII_filter img0 =
     (let img = applyGrayscale img0;
          (min_val, max_val) = scan_min_max (pixels img) (height img) (width img)
      in case fold (\<lambda>y. fold (\<lambda>x. stretch_step min_val max_val y x) [0..<nat (width img)])
                   [0..<nat (height img)] (Inr (pixels img)) of
           Inl e \<Rightarrow> Inl e
         | Inr ps \<Rightarrow>
             Inr (img\<lparr>pixels := ps\<rparr>,
                  \<lparr>ascii_width = width img, ascii_height = height img,
                   ascii_pixels = map (\<lambda>y. map (\<lambda>x. ascii_chars ! nat (ramp_index (ps ! y ! x)))
                                              [0..<nat (width img)])
                                      [0..<nat (height img)]\<rparr>))"

text \<open>
  \<^verbatim>\<open>saveAsciiImage\<close>: the text written to the file, \<open>None\<close> when the stream could not be
  opened.  The row loop is \<^verbatim>\<open>for (int y = ascii_image->height - 1; y >= 0; y--)\<close>.
\<close>

definition saveAsciiImage :: "AsciiFilter \<Rightarrow> bool \<Rightarrow> string option" where
  "saveAsciiImage ascii_image opened =
     (if \<not> opened then None
      else Some (fold (\<lambda>y out.
                   fold (\<lambda>x out. out @ [ascii_pixels ascii_image ! y ! x])
                        [0..<nat (ascii_width ascii_image)] out @ [CHR 0x0A])
                 (rev [0..<nat (ascii_height ascii_image)]) []))"

text \<open>
  \<^verbatim>\<open>make_ascii\<close>, for a size its prompt loop has accepted (\<open>make_ascii_accepts\<close>): the resize,
  then \<^verbatim>\<open>ASCII_filter\<close> on the image as the resize left it, then the text file.
\<close>

definition make_ascii_accepts :: "ImageDetails \<Rightarrow> int \<Rightarrow> bool" where
  "make_ascii_accepts img new_size \<longleftrightarrow>
     \<not> (new_size \<le> 0 \<or> new_size > width img \<or> new_size > height img)"


text \<open>An image of \<open>h\<close> rows and \<open>w\<close> columns with the same pixel everywhere.\<close>

definition uniform_image :: "nat \<Rightarrow> nat \<Rightarrow> Pixeldata \<Rightarrow> ImageDetails" where
  "uniform_image h w p =
     \<lparr>width = int w, height = int h, pixels = replicate h (replicate w p)\<rparr>"

definition gray :: "BYTE \<Rightarrow> Pixeldata" where
  "gray v = \<lparr>B = v, G = v, R = v\<rparr>"

text \<open>A small image with six different pixels, for concrete instances.\<close>

definition example_image :: ImageDetails where
  "example_image =
     \<lparr>width = 3, height = 2,
      pixels = [[gray 1, gray 2, gray 3], [gray 4, gray 5, gray 6]]\<rparr>"

text \<open>A small character grid with two different rows.\<close>

definition example_ascii :: AsciiFilter where
  "example_ascii = \<lparr>ascii_width = 2, ascii_height = 2, ascii_pixels = [''ab'', ''cd'']\<rparr>"

text \<open>A result that is a value or the overflow of the sample arrays.\<close>

definition only_overflow :: "fault + 'a \<Rightarrow> bool" where
  "only_overflow acc = (case acc of Inl e \<Rightarrow> e = BufferOverflow | Inr _ \<Rightarrow> True)"



text \<open>An array of \<open>h\<close> rows of \<open>w\<close> cells.\<close>

definition wf_pixels :: "nat \<Rightarrow> nat \<Rightarrow> 'a list list \<Rightarrow> bool" where
  "wf_pixels h w ps \<longleftrightarrow> length ps = h \<and> (\<forall>row \<in> set ps. length row = w)"

text \<open>A 3 by 3 image with a bright centre.\<close>

definition example_3x3 :: ImageDetails where
  "example_3x3 =
     \<lparr>width = 3, height = 3,
      pixels = [[gray 1, gray 2, gray 3], [gray 10, gray 200, gray 30], [gray 1, gray 2, gray 3]]\<rparr>"

section \<open>Loops over the pixel array\<close>

text \<open>
  Every filter walks the array with two nested index loops and assigns one cell per
  iteration.  The lemmas below say what such a loop leaves in each cell, and that it never
  changes the shape of the array.
\<close>

lemma map_length_set_pixel: "map length (set_pixel ps y x v) = map length ps"
proof (cases "y < length ps")
  case True
  then show ?thesis
    by (simp add: set_pixel_def map_update list_update_same_conv)
next
  case False
  then show ?thesis by (simp add: set_pixel_def list_update_beyond)
qed

lemma length_row_loop: "length (fold (\<lambda>x r. r[x := f x (r ! x)]) xs row) = length row"
  by (induction xs arbitrary: row) simp_all

lemma nth_row_loop:
  "b \<le> length row \<Longrightarrow> j < length row \<Longrightarrow>
   fold (\<lambda>x r. r[x := f x (r ! x)]) [a..<b] row ! j =
   (if a \<le> j \<and> j < b then f j (row ! j) else row ! j)"
proof (induction b arbitrary: j)
  case 0
  then show ?case by simp
next
  case (Suc b)
  show ?case
  proof (cases "a \<le> b")
    case True
    have len: "b < length (fold (\<lambda>x r. r[x := f x (r ! x)]) [a..<b] row)"
      using Suc.prems by (simp add: length_row_loop)
    have ih: "\<And>i. i < length row \<Longrightarrow> fold (\<lambda>x r. r[x := f x (r ! x)]) [a..<b] row ! i =
         (if a \<le> i \<and> i < b then f i (row ! i) else row ! i)"
      using Suc by simp
    show ?thesis
    proof (cases "j = b")
      case True
      with \<open>a \<le> b\<close> len Suc.prems show ?thesis by (simp add: ih)
    next
      case False
      with \<open>a \<le> b\<close> len Suc.prems show ?thesis by (simp add: ih less_Suc_eq)
    qed
  next
    case False
    then show ?thesis by (auto simp: less_Suc_eq)
  qed
qed

lemma fold_set_pixel_row:
  "y < length ps \<Longrightarrow>
   fold (\<lambda>x p. set_pixel p y x (f x (p ! y ! x))) xs ps =
   ps[y := fold (\<lambda>x r. r[x := f x (r ! x)]) xs (ps ! y)]"
  by (induction xs arbitrary: ps) (simp_all add: set_pixel_def)

lemma length_pixel_loop:
  "length (fold (\<lambda>y. fold (\<lambda>x p. set_pixel p y x (F p y x)) xs) ys ps) = length ps"
proof (induction ys arbitrary: ps)
  case Nil
  then show ?case by simp
next
  case (Cons y ys)
  have "length (fold (\<lambda>x p. set_pixel p y x (F p y x)) xs ps) = length ps" for ps
    by (induction xs arbitrary: ps) (simp_all add: set_pixel_def)
  with Cons show ?case by simp
qed

lemma map_length_pixel_loop:
  "map length (fold (\<lambda>y. fold (\<lambda>x p. set_pixel p y x (F p y x)) xs) ys ps) = map length ps"
proof (induction ys arbitrary: ps)
  case Nil
  then show ?case by simp
next
  case (Cons y ys)
  have "map length (fold (\<lambda>x p. set_pixel p y x (F p y x)) xs ps) = map length ps" for ps
    by (induction xs arbitrary: ps) (simp_all add: map_length_set_pixel)
  with Cons show ?case by simp
qed

lemma nth_pixel_loop_aux:
  assumes rows: "\<forall>row \<in> set ps. b \<le> length row"
  shows "d \<le> length ps \<Longrightarrow> i < length ps \<Longrightarrow> j < length (ps ! i) \<Longrightarrow>
         fold (\<lambda>y. fold (\<lambda>x p. set_pixel p y x (f y x (p ! y ! x))) [a..<b]) [c..<d] ps ! i ! j =
         (if c \<le> i \<and> i < d \<and> a \<le> j \<and> j < b then f i j (ps ! i ! j) else ps ! i ! j)"
proof (induction d arbitrary: i j)
  case 0
  then show ?case by simp
next
  case (Suc d)
  show ?case
  proof (cases "c \<le> d")
    case True
    define q where "q = fold (\<lambda>y. fold (\<lambda>x p. set_pixel p y x (f y x (p ! y ! x))) [a..<b]) [c..<d] ps"
    have ih: "\<And>i j. i < length ps \<Longrightarrow> j < length (ps ! i) \<Longrightarrow>
        q ! i ! j = (if c \<le> i \<and> i < d \<and> a \<le> j \<and> j < b then f i j (ps ! i ! j) else ps ! i ! j)"
      unfolding q_def using Suc.IH Suc.prems(1) by simp
    have d: "d < length ps" using Suc.prems by simp
    have lq: "length q = length ps" unfolding q_def by (rule length_pixel_loop)
    have mq: "map length q = map length ps" unfolding q_def by (rule map_length_pixel_loop)
    have lrow: "\<And>k. k < length ps \<Longrightarrow> length (q ! k) = length (ps ! k)"
    proof -
      fix k assume k: "k < length ps"
      have "map length q ! k = map length ps ! k" by (simp only: mq)
      with k lq show "length (q ! k) = length (ps ! k)" by simp
    qed
    have bl: "b \<le> length (q ! d)" using rows d lrow by simp
    have "fold (\<lambda>y. fold (\<lambda>x p. set_pixel p y x (f y x (p ! y ! x))) [a..<b]) [c..<Suc d] ps
          = fold (\<lambda>x p. set_pixel p d x (f d x (p ! d ! x))) [a..<b] q"
      using True by (simp add: q_def)
    also have "\<dots> = q[d := fold (\<lambda>x r. r[x := f d x (r ! x)]) [a..<b] (q ! d)]"
      by (rule fold_set_pixel_row) (simp add: lq d)
    finally have step: "fold (\<lambda>y. fold (\<lambda>x p. set_pixel p y x (f y x (p ! y ! x))) [a..<b]) [c..<Suc d] ps
          = q[d := fold (\<lambda>x r. r[x := f d x (r ! x)]) [a..<b] (q ! d)]" .
    show ?thesis
    proof (cases "i = d")
      case False
      have "q[d := fold (\<lambda>x r. r[x := f d x (r ! x)]) [a..<b] (q ! d)] ! i ! j = q ! i ! j"
        using False by simp
      also have "\<dots> = (if c \<le> i \<and> i < d \<and> a \<le> j \<and> j < b then f i j (ps ! i ! j) else ps ! i ! j)"
        using Suc.prems by (simp add: ih)
      finally show ?thesis
        unfolding step using False Suc.prems by (simp add: less_Suc_eq)
    next
      case True
      have jq: "j < length (q ! d)" using Suc.prems True lrow d by simp
      have "q[d := fold (\<lambda>x r. r[x := f d x (r ! x)]) [a..<b] (q ! d)] ! i ! j
            = fold (\<lambda>x r. r[x := f d x (r ! x)]) [a..<b] (q ! d) ! j"
        using True d lq by simp
      also have "\<dots> = (if a \<le> j \<and> j < b then f d j (q ! d ! j) else q ! d ! j)"
        by (rule nth_row_loop [OF bl jq])
      also have "q ! d ! j = ps ! d ! j"
        using ih [of d j] d Suc.prems True by simp
      finally show ?thesis
        unfolding step using True \<open>c \<le> d\<close> by simp
    qed
  next
    case False
    then show ?thesis by (auto simp: less_Suc_eq)
  qed
qed

lemma fold_set_pixel_row_always:
  "fold (\<lambda>x p. set_pixel p y x (f x (p ! y ! x))) xs ps =
   ps[y := fold (\<lambda>x r. r[x := f x (r ! x)]) xs (ps ! y)]"
proof (cases "y < length ps")
  case True
  then show ?thesis by (rule fold_set_pixel_row)
next
  case False
  have "fold (\<lambda>x p. set_pixel p y x (F p x)) xs ps = ps" for F
    using False by (induction xs arbitrary: ps) (simp_all add: set_pixel_def list_update_beyond)
  with False show ?thesis by (simp add: list_update_beyond)
qed

lemma c_div_nonneg: "0 \<le> a \<Longrightarrow> 0 < b \<Longrightarrow> c_div a b = a div b"
  by (cases "a = 0") (simp_all add: c_div_def)

section \<open>Flip reverses every row\<close>

lemma swap_pixels_row:
  "swap_pixels ps y x x' = ps[y := (ps ! y)[x := ps ! y ! x', x' := ps ! y ! x]]"
  by (cases "y < length ps") (simp_all add: swap_pixels_def set_pixel_def list_update_beyond)

lemma fold_swap_row:
  "fold (\<lambda>x p. swap_pixels p y x (g x)) xs ps =
   ps[y := fold (\<lambda>x r. r[x := r ! g x, g x := r ! x]) xs (ps ! y)]"
proof (induction xs arbitrary: ps)
  case Nil
  then show ?case by simp
next
  case (Cons x xs)
  have "fold (\<lambda>x p. swap_pixels p y x (g x)) (x # xs) ps =
        fold (\<lambda>x p. swap_pixels p y x (g x)) xs (swap_pixels ps y x (g x))"
    by simp
  also have "\<dots> = (swap_pixels ps y x (g x))
        [y := fold (\<lambda>x r. r[x := r ! g x, g x := r ! x]) xs (swap_pixels ps y x (g x) ! y)]"
    by (rule Cons.IH)
  also have "\<dots> = ps[y := fold (\<lambda>x r. r[x := r ! g x, g x := r ! x]) (x # xs) (ps ! y)]"
    by (cases "y < length ps") (simp_all add: swap_pixels_row list_update_beyond)
  finally show ?case .
qed

lemma fold_swap_row_fun:
  "fold (\<lambda>x p. swap_pixels p y x (g x)) xs =
   (\<lambda>ps. ps[y := fold (\<lambda>x r. r[x := r ! g x, g x := r ! x]) xs (ps ! y)])"
  by (rule ext) (rule fold_swap_row)

lemma length_fold_swap: "length (fold (\<lambda>x r. r[x := r ! g x, g x := r ! x]) xs r) = length r"
  by (induction xs arbitrary: r) simp_all

lemma nth_flip_row:
  "length r = w \<Longrightarrow> 2 * k \<le> w \<Longrightarrow> j < w \<Longrightarrow>
   fold (\<lambda>x r. r[x := r ! (w - Suc x), w - Suc x := r ! x]) [0..<k] r ! j =
   (if j < k \<or> w - k \<le> j then r ! (w - Suc j) else r ! j)"
proof (induction k arbitrary: j)
  case 0
  then show ?case by simp
next
  case (Suc k)
  define q where "q = fold (\<lambda>x r. r[x := r ! (w - Suc x), w - Suc x := r ! x]) [0..<k] r"
  have lq: "length q = w"
    unfolding q_def using Suc.prems(1) by (simp add: length_fold_swap)
  have ih: "\<And>i. i < w \<Longrightarrow>
      q ! i = (if i < k \<or> w - k \<le> i then r ! (w - Suc i) else r ! i)"
    unfolding q_def using Suc by simp
  have step: "fold (\<lambda>x r. r[x := r ! (w - Suc x), w - Suc x := r ! x]) [0..<Suc k] r
      = q[k := q ! (w - Suc k), w - Suc k := q ! k]"
    by (simp add: q_def)
  have k: "k < w" "w - Suc k < w" "k \<le> w - Suc k"
    using Suc.prems by auto
  have "\<not> (k < k \<or> w - k \<le> k)"
    using Suc.prems by arith
  then have qk: "q ! k = r ! k"
    using k(1) ih [of k] by simp
  have "\<not> (w - Suc k < k \<or> w - k \<le> w - Suc k)"
    using Suc.prems by arith
  then have qk': "q ! (w - Suc k) = r ! (w - Suc k)"
    using k(2) ih [of "w - Suc k"] by simp
  consider "j = k" | "j = w - Suc k" "j \<noteq> k" | "j \<noteq> k" "j \<noteq> w - Suc k" by blast
  then show ?case
  proof cases
    case 1
    then show ?thesis
      unfolding step using k by (simp add: nth_list_update lq qk qk')
  next
    case 2
    then show ?thesis
      unfolding step using k by (simp add: nth_list_update lq qk qk')
  next
    case 3
    have "q[k := q ! (w - Suc k), w - Suc k := q ! k] ! j = q ! j"
      using 3 by (simp add: nth_list_update)
    also have "\<dots> = (if j < k \<or> w - k \<le> j then r ! (w - Suc j) else r ! j)"
      using Suc.prems by (simp add: ih)
    also have "\<dots> = (if j < Suc k \<or> w - Suc k \<le> j then r ! (w - Suc j) else r ! j)"
    proof -
      have "(j < k \<or> w - k \<le> j) = (j < Suc k \<or> w - Suc k \<le> j)"
        using 3 k Suc.prems by arith
      then show ?thesis by simp
    qed
    finally show ?thesis unfolding step .
  qed
qed

lemma flip_row_rev:
  assumes "length r = w"
  shows "fold (\<lambda>x r. r[x := r ! (w - Suc x), w - Suc x := r ! x]) [0..<w div 2] r = rev r"
proof (rule nth_equalityI)
  show "length (fold (\<lambda>x r. r[x := r ! (w - Suc x), w - Suc x := r ! x]) [0..<w div 2] r)
        = length (rev r)"
    by (simp add: length_fold_swap)
next
  fix j
  assume "j < length (fold (\<lambda>x r. r[x := r ! (w - Suc x), w - Suc x := r ! x]) [0..<w div 2] r)"
  then have j: "j < w" using assms by (simp add: length_fold_swap)
  have w2: "2 * (w div 2) \<le> w" by simp
  have mid: "\<not> (j < w div 2 \<or> w - w div 2 \<le> j) \<Longrightarrow> w - Suc j = j"
    using j by arith
  have "fold (\<lambda>x r. r[x := r ! (w - Suc x), w - Suc x := r ! x]) [0..<w div 2] r ! j
        = (if j < w div 2 \<or> w - w div 2 \<le> j then r ! (w - Suc j) else r ! j)"
    by (rule nth_flip_row [OF assms w2 j])
  also have "\<dots> = r ! (w - Suc j)"
    using mid by (cases "j < w div 2 \<or> w - w div 2 \<le> j") simp_all
  also have "\<dots> = rev r ! j"
    using j assms by (simp add: rev_nth)
  finally show "fold (\<lambda>x r. r[x := r ! (w - Suc x), w - Suc x := r ! x]) [0..<w div 2] r ! j
        = rev r ! j" .
qed

lemma rows_loop:
  "fold (\<lambda>y p. p[y := g y (p ! y)]) [0..<length ps] ps = map (\<lambda>y. g y (ps ! y)) [0..<length ps]"
proof (rule nth_equalityI)
  show "length (fold (\<lambda>y p. p[y := g y (p ! y)]) [0..<length ps] ps)
        = length (map (\<lambda>y. g y (ps ! y)) [0..<length ps])"
    by (simp add: length_row_loop)
next
  fix i
  assume "i < length (fold (\<lambda>y p. p[y := g y (p ! y)]) [0..<length ps] ps)"
  then have i: "i < length ps" by (simp add: length_row_loop)
  then show "fold (\<lambda>y p. p[y := g y (p ! y)]) [0..<length ps] ps ! i
        = map (\<lambda>y. g y (ps ! y)) [0..<length ps] ! i"
    by (simp add: nth_row_loop)
qed

lemma applyFlip_pixels:
  assumes "wf_image img"
  shows "pixels (applyFlip img) = map rev (pixels img)"
proof -
  let ?w = "nat (width img)"
  have w: "0 \<le> width img" and h: "length (pixels img) = nat (height img)"
    and rows: "\<And>row. row \<in> set (pixels img) \<Longrightarrow> length row = ?w"
    using assms by (simp_all add: wf_image_def)
  have idx: "\<And>x. nat (width img - int x - 1) = ?w - Suc x" by simp
  have half: "nat (c_div (width img) 2) = ?w div 2"
    using w by (simp add: c_div_nonneg nat_div_distrib)
  have "pixels (applyFlip img) =
        fold (\<lambda>y p. p[y := fold (\<lambda>x r. r[x := r ! (?w - Suc x), ?w - Suc x := r ! x])
                                  [0..<?w div 2] (p ! y)])
             [0..<length (pixels img)] (pixels img)"
    by (simp add: applyFlip_def idx half fold_swap_row_fun h)
  also have "\<dots> = map (\<lambda>y. fold (\<lambda>x r. r[x := r ! (?w - Suc x), ?w - Suc x := r ! x])
                                  [0..<?w div 2] (pixels img ! y)) [0..<length (pixels img)]"
    by (rule rows_loop)
  also have "\<dots> = map (\<lambda>y. rev (pixels img ! y)) [0..<length (pixels img)]"
    by (rule map_cong [OF refl]) (simp add: flip_row_rev rows)
  also have "\<dots> = map rev (map ((!) (pixels img)) [0..<length (pixels img)])"
    by (simp only: map_map comp_def)
  also have "\<dots> = map rev (pixels img)"
    by (simp only: map_nth)
  finally show ?thesis .
qed

lemma applyFlip_fields: "width (applyFlip img) = width img \<and> height (applyFlip img) = height img"
  by (simp add: applyFlip_def)

lemma wf_applyFlip: "wf_image img \<Longrightarrow> wf_image (applyFlip img)"
  using applyFlip_fields [of img] by (simp add: wf_image_def applyFlip_pixels)

section \<open>The text writer\<close>

lemma append_row_loop:
  "fold (\<lambda>x out. out @ [row ! x]) [0..<n] out = out @ take n row" if "n \<le> length row"
  using that
proof (induction n)
  case 0
  then show ?case by simp
next
  case (Suc n)
  then show ?case by (simp add: take_Suc_conv_app_nth)
qed

lemma append_lines_loop:
  "fold (\<lambda>y out. out @ g y) ys out = out @ concat (map g ys)"
  by (induction ys arbitrary: out) simp_all

section \<open>Faults of the noise reduction\<close>

text \<open>
  The only fault of the noise reduction is the overflow of the sample arrays, and once one
  window overflows the whole call has overflowed.
\<close>

lemma noise_pixel_isl:
  "isl acc \<Longrightarrow> isl (noise_pixel o_p h w k off y x acc)"
  by (cases acc) (simp_all add: noise_pixel_def)

lemma noise_row_isl:
  "isl acc \<Longrightarrow> isl (fold (\<lambda>x. noise_pixel o_p h w k off y x) xs acc)"
  by (induction xs arbitrary: acc) (simp_all add: noise_pixel_isl)

lemma noise_rows_isl:
  "isl acc \<Longrightarrow> isl (fold (\<lambda>y. fold (\<lambda>x. noise_pixel o_p h w k off y x) xs) ys acc)"
  by (induction ys arbitrary: acc) (simp_all add: noise_row_isl)

lemma noise_pixel_overflow:
  "collect_window o_p h w k off (int y) (int x) = Inl e \<Longrightarrow>
   isl (noise_pixel o_p h w k off y x acc)"
  by (cases acc) (simp_all add: noise_pixel_def)

lemma noise_row_overflow:
  assumes "collect_window o_p h w k off (int y) (int x) = Inl e" and "x < n"
  shows "isl (fold (\<lambda>x. noise_pixel o_p h w k off y x) [0..<n] acc)"
proof -
  have "[0..<n] = [0..<x] @ x # [Suc x..<n]"
    using assms(2) by (metis upt_conv_Cons upt_add_eq_append le0 add_0 le_add_diff_inverse less_imp_le)
  then show ?thesis
    by (simp add: noise_row_isl noise_pixel_overflow [OF assms(1)])
qed

lemma noise_rows_overflow:
  assumes "collect_window o_p h w k off (int y) (int x) = Inl e" and "x < n" and "y < m"
  shows "isl (fold (\<lambda>y. fold (\<lambda>x. noise_pixel o_p h w k off y x) [0..<n]) [0..<m] acc)"
proof -
  have "[0..<m] = [0..<y] @ y # [Suc y..<m]"
    using assms(3) by (metis upt_conv_Cons upt_add_eq_append le0 add_0 le_add_diff_inverse less_imp_le)
  then show ?thesis
    by (simp add: noise_rows_isl noise_row_overflow [OF assms(1,2)])
qed

lemma collect_sample_fault:
  "only_overflow acc \<Longrightarrow> only_overflow (collect_sample k p acc)"
  by (cases acc) (auto simp: only_overflow_def collect_sample_def)

lemma collect_window_fault:
  assumes "collect_window o_p h w k off y x = Inl e"
  shows "e = BufferOverflow"
proof -
  have inner: "only_overflow (fold (\<lambda>kx acc.
              let sample_y = y + ky; sample_x = x + kx
              in if 0 \<le> sample_y \<and> sample_y < h \<and> 0 \<le> sample_x \<and> sample_x < w
                 then collect_sample k (o_p ! nat sample_y ! nat sample_x) acc
                 else acc) kxs acc)" if "only_overflow acc" for ky kxs acc
    using that by (induction kxs arbitrary: acc) (simp_all add: Let_def collect_sample_fault)
  have outer: "only_overflow (fold (\<lambda>ky. fold (\<lambda>kx acc.
              let sample_y = y + ky; sample_x = x + kx
              in if 0 \<le> sample_y \<and> sample_y < h \<and> 0 \<le> sample_x \<and> sample_x < w
                 then collect_sample k (o_p ! nat sample_y ! nat sample_x) acc
                 else acc) kxs) kys acc)" if "only_overflow acc" for kxs kys acc
    using that by (induction kys arbitrary: acc) (simp_all add: inner)
  have "only_overflow (collect_window o_p h w k off y x)"
    unfolding collect_window_def by (rule outer) (simp add: only_overflow_def)
  with assms show ?thesis by (simp add: only_overflow_def)
qed

lemma noise_pixel_fault:
  assumes "only_overflow acc"
  shows "only_overflow (noise_pixel o_p h w k off y x acc)"
proof (cases acc)
  case (Inl e)
  with assms show ?thesis by (simp add: noise_pixel_def)
next
  case (Inr ps)
  show ?thesis
  proof (cases "collect_window o_p h w k off (int y) (int x)")
    case (Inl e)
    then have "e = BufferOverflow" by (rule collect_window_fault)
    with Inl Inr show ?thesis by (simp add: noise_pixel_def only_overflow_def)
  next
    case Inr': (Inr t)
    with Inr show ?thesis
      by (cases t) (simp add: noise_pixel_def Let_def only_overflow_def)
  qed
qed

lemma noise_loop_fault:
  assumes "fold (\<lambda>y. fold (\<lambda>x. noise_pixel o_p h w k off y x) xs) ys (Inr ps) = Inl e"
  shows "e = BufferOverflow"
proof -
  have inner: "only_overflow (fold (\<lambda>x. noise_pixel o_p h w k off y x) xs acc)"
    if "only_overflow acc" for y acc
    using that by (induction xs arbitrary: acc) (simp_all add: noise_pixel_fault)
  have outer: "only_overflow (fold (\<lambda>y. fold (\<lambda>x. noise_pixel o_p h w k off y x) xs) ys acc)"
    if "only_overflow acc" for acc
    using that by (induction ys arbitrary: acc) (simp_all add: inner)
  have "only_overflow (fold (\<lambda>y. fold (\<lambda>x. noise_pixel o_p h w k off y x) xs) ys (Inr ps))"
    by (rule outer) (simp add: only_overflow_def)
  with assms show ?thesis by (simp add: only_overflow_def)
qed

lemma applyNoiseReduction_overflow:
  assumes "collect_window (copy_pixels (pixels img) (height img) (width img))
             (height img) (width img) (noise_kernel_size s) (noise_offset s) (int y) (int x)
           = Inl e"
    and "y < nat (height img)" and "x < nat (width img)"
  shows "applyNoiseReduction img s = Inl BufferOverflow"
proof -
  let ?o = "copy_pixels (pixels img) (height img) (width img)"
  let ?r = "fold (\<lambda>y. fold (\<lambda>x. noise_pixel ?o (height img) (width img)
                       (noise_kernel_size s) (noise_offset s) y x) [0..<nat (width img)])
                 [0..<nat (height img)] (Inr (pixels img))"
  have "isl ?r"
    by (rule noise_rows_overflow [OF assms(1) assms(3) assms(2)])
  then obtain e' where e': "?r = Inl e'"
    by (cases ?r) simp_all
  then have "e' = BufferOverflow" by (rule noise_loop_fault)
  with e' show ?thesis
    by (simp add: applyNoiseReduction_def Let_def)
qed

lemma upto_m2_2: "[- 2..2] = [- 2, - 1, 0, 1, 2::int]"
  by (simp add: upto.simps)

lemma noise_kernel_at_1: "noise_kernel_size 1 = 4" "noise_offset 1 = 2"
  by (simp_all add: noise_strength_def noise_kernel_size_def noise_offset_def c_div_def c_mod_def)

lemma window_overflow_5x5:
  "collect_window o_p 5 5 4 2 1 2 = Inl BufferOverflow"
  by (simp add: upto_m2_2 collect_window_def collect_sample_def Let_def
           del: upto_rec_numeral)

section \<open>Dimensions\<close>














section \<open>Exact floating-point steps of the sharpen filter\<close>

text \<open>
  Integers below \<open>2\<^sup>2\<^sup>4\<close> are binary32 numbers, so the strength and the product of a
  byte and a strength in 1..100 are computed without rounding.
\<close>

lemma round_ties_even_of_int: "round_ties_even (of_int m) = m"
  by (simp add: round_ties_even_def)

lemma f32_of_int_exact:
  assumes "0 \<le> n" and "n < 2 ^ 24"
  shows "f32 (of_int n) = of_int n"
proof (cases "n = 0")
  case True
  then show ?thesis by (simp add: f32_def fl_round_def)
next
  case False
  with assms have pos: "0 < n" by simp
  then have one: "(1::rat) \<le> of_int n" by simp
  have b1: "1 \<le> bitlen n" using pos by (simp add: bitlen_ge_iff_power)
  have b24: "bitlen n \<le> 24" using assms by (simp add: bitlen_le_iff_power)
  define d where "d = nat (24 - bitlen n)"
  have e: "binary_exponent \<bar>of_int n\<bar> - 23 = - int d"
    using pos one b1 b24 by (simp add: binary_exponent_def d_def)
  have u: "pow2 (- int d) = 1 / 2 ^ d"
    by (cases "d = 0") (simp_all add: pow2_def)
  have "(of_int n :: rat) / (1 / 2 ^ d) = of_int (n * 2 ^ d)"
    by simp
  then have "round_ties_even (of_int n / (1 / 2 ^ d)) = n * 2 ^ d"
    by (simp only: round_ties_even_of_int)
  then show ?thesis
    using False by (simp add: f32_def fl_round_def e u Let_def)
qed

lemma c_trunc_of_int: "c_trunc (of_int n) = n"
  by (simp add: c_trunc_def)

lemma uint_to_byte: "0 \<le> i \<Longrightarrow> i \<le> 255 \<Longrightarrow> uint (to_byte i) = i"
  by (simp add: to_byte_def uint_word_of_int)

lemma uint_byte_le: "uint (b :: BYTE) \<le> 255"
  using uint_lt2p [of b] by simp

lemma to_byte_uint: "to_byte (uint b) = b"
  by (simp add: to_byte_def)

lemma to_byte_diff: "to_byte (uint a - uint b) = a - b"
  by (simp add: to_byte_def)

lemma clamp_int_max_min: "clamp_int v 0 255 = max 0 (min 255 v)"
  by (simp add: clamp_int_def)

lemma multiply_channel_exact:
  assumes "1 \<le> s" and "s \<le> 100"
  shows "uint (multiply_channel (f32 (of_int s)) m) = max 0 (min 255 (uint m * s))"
proof -
  have s: "f32 (of_int s) = of_int s"
    using assms by (intro f32_of_int_exact) simp_all
  have "0 \<le> uint m * s" using assms by simp
  moreover have "uint m * s \<le> 255 * 100"
    using assms uint_byte_le [of m] by (intro mult_mono) simp_all
  ultimately have p: "f32 (of_int (uint m * s)) = of_int (uint m * s)"
    by (intro f32_of_int_exact) simp_all
  have "multiply_channel (f32 (of_int s)) m = to_byte (clamp_int (uint m * s) 0 255)"
    unfolding multiply_channel_def s
    by (simp only: of_int_mult [symmetric] p c_trunc_of_int)
  then show ?thesis
    by (simp add: clamp_int_max_min uint_to_byte)
qed

lemma sharpen_channel:
  assumes "1 \<le> s" and "s \<le> 100"
  shows "to_byte (clamp_int (uint (to_byte (clamp_int
           (uint g + uint (multiply_channel (f32 (of_int s)) (to_byte (uint g - uint b)))) 0 255)))
           0 255)
         = sharpen_channel_spec s g b"
  by (simp add: multiply_channel_exact [OF assms] to_byte_diff sharpen_channel_spec_def Let_def
        clamp_int_max_min uint_to_byte to_byte_uint)

lemma sharpen_pixel:
  assumes "1 \<le> s" and "s \<le> 100"
  shows "clamp_pixel (add_pixel p (multiply_pixel (f32 (of_int s)) (subtract_pixel p q)))
         = sharpen_pixel_spec s p q"
  by (simp add: clamp_pixel_def add_pixel_def multiply_pixel_def subtract_pixel_def
        sharpen_pixel_spec_def sharpen_channel [OF assms])


section \<open>Well-formed pixel arrays\<close>

lemma wf_image_pixels:
  "wf_image img \<Longrightarrow> wf_pixels (nat (height img)) (nat (width img)) (pixels img)"
  by (simp add: wf_image_def wf_pixels_def)

lemma wf_pixels_nth: "wf_pixels h w ps \<Longrightarrow> i < h \<Longrightarrow> length (ps ! i) = w"
  by (simp add: wf_pixels_def)

lemma wf_pixels_shape:
  assumes "map length q = map length ps" and "wf_pixels h w ps"
  shows "wf_pixels h w q"
proof -
  have "length q = length ps"
    using assms(1) by (rule map_eq_imp_length_eq)
  moreover have "\<forall>n \<in> set (map length q). n = w"
    using assms by (simp add: wf_pixels_def)
  ultimately show ?thesis
    using assms(2) by (simp add: wf_pixels_def)
qed

lemma wf_pixels_loop:
  "wf_pixels h w ps \<Longrightarrow>
   wf_pixels h w (fold (\<lambda>y. fold (\<lambda>x p. set_pixel p y x (F p y x)) xs) ys ps)"
  by (rule wf_pixels_shape [OF map_length_pixel_loop])

lemma wf_pixels_eqI:
  assumes "wf_pixels h w p" and "wf_pixels h w q"
    and "\<And>i j. i < h \<Longrightarrow> j < w \<Longrightarrow> p ! i ! j = q ! i ! j"
  shows "p = q"
proof (rule nth_equalityI)
  show "length p = length q" using assms(1,2) by (simp add: wf_pixels_def)
next
  fix i assume "i < length p"
  then have i: "i < h" using assms(1) by (simp add: wf_pixels_def)
  show "p ! i = q ! i"
  proof (rule nth_equalityI)
    show "length (p ! i) = length (q ! i)"
      using assms(1,2) i by (simp add: wf_pixels_nth)
  next
    fix j assume "j < length (p ! i)"
    then have "j < w" using assms(1) i by (simp add: wf_pixels_nth)
    with i show "p ! i ! j = q ! i ! j" by (rule assms(3))
  qed
qed

lemma nth_whole_loop:
  assumes "wf_pixels h w ps" and "i < h" and "j < w"
  shows "fold (\<lambda>y. fold (\<lambda>x p. set_pixel p y x (f y x (p ! y ! x))) [0..<w]) [0..<h] ps ! i ! j
         = f i j (ps ! i ! j)"
proof -
  have rows: "\<forall>row \<in> set ps. w \<le> length row" and h: "h \<le> length ps" "i < length ps"
    using assms by (simp_all add: wf_pixels_def)
  have j: "j < length (ps ! i)"
    using assms by (simp add: wf_pixels_nth)
  show ?thesis
    using nth_pixel_loop_aux [OF rows h j, where a = 0 and c = 0 and f = f] assms(2,3)
    by simp
qed

lemma nth_inner_loop:
  assumes "wf_pixels h w ps" and "i < h" and "j < w"
  shows "fold (\<lambda>y. fold (\<lambda>x p. set_pixel p y x (g y x)) [1..<w - 1]) [1..<h - 1] ps ! i ! j
         = (if 1 \<le> i \<and> i < h - 1 \<and> 1 \<le> j \<and> j < w - 1 then g i j else ps ! i ! j)"
proof -
  have rows: "\<forall>row \<in> set ps. w - 1 \<le> length row" and h: "h - 1 \<le> length ps" "i < length ps"
    using assms by (simp_all add: wf_pixels_def)
  have j: "j < length (ps ! i)"
    using assms by (simp add: wf_pixels_nth)
  show ?thesis
    using nth_pixel_loop_aux [OF rows h j, where a = 1 and c = 1 and f = "\<lambda>y x v. g y x"]
    by simp
qed

lemma copy_pixels_wf:
  assumes "wf_image img"
  shows "copy_pixels (pixels img) (height img) (width img) = pixels img"
proof (rule wf_pixels_eqI [where h = "nat (height img)" and w = "nat (width img)"])
  show "wf_pixels (nat (height img)) (nat (width img))
          (copy_pixels (pixels img) (height img) (width img))"
    by (simp add: wf_pixels_def copy_pixels_def)
  show "wf_pixels (nat (height img)) (nat (width img)) (pixels img)"
    by (rule wf_image_pixels [OF assms])
  show "copy_pixels (pixels img) (height img) (width img) ! i ! j = pixels img ! i ! j"
    if "i < nat (height img)" "j < nat (width img)" for i j
    using that by (simp add: copy_pixels_def)
qed

lemma image_copy: "\<lparr>width = width img, height = height img, pixels = pixels img\<rparr> = img"
  by simp

section \<open>Gaussian blur\<close>

lemma wf_blur:
  "wf_image img \<Longrightarrow>
   wf_pixels (nat (height img)) (nat (width img)) (pixels (applyGaussianBlur img))"
  by (simp add: applyGaussianBlur_def Let_def wf_pixels_loop wf_image_pixels)

lemma nat_pred: "nat (n - 1) = nat n - 1"
  by simp

lemma blur_pixel_example: "blur_pixel (pixels example_3x3) 1 1 = gray 56"
  by code_simp

lemma example_3x3_fields:
  "width example_3x3 = 3" "height example_3x3 = 3"
  "pixels example_3x3 ! 0 ! 2 = gray 3"
  by (simp_all add: example_3x3_def)

lemma wf_example_3x3: "wf_image example_3x3"
  by (simp add: wf_image_def example_3x3_def)

section \<open>Stretching and the brightness ramp\<close>

lemma nested_fold_flat:
  "fold (\<lambda>y. fold (\<lambda>x. g (v y x)) xs) ys s = fold g (concat (map (\<lambda>y. map (v y) xs) ys)) s"
  by (induction ys arbitrary: s) (simp_all add: fold_map comp_def)

lemma min_max_step_pair:
  "min_max_step v (mn0, mx0) = (if v < mn0 then v else mn0, if mx0 < v then v else mx0)"
  by (simp add: min_max_step_def)

lemma min_max_fold:
  "fold min_max_step vs (mn0, mx0) = (mn, mx) \<Longrightarrow>
   mn \<le> mn0 \<and> mx0 \<le> mx \<and> (\<forall>v \<in> set vs. mn \<le> v \<and> v \<le> mx)"
proof (induction vs arbitrary: mn0 mx0)
  case Nil
  then show ?case by simp
next
  case (Cons v vs)
  let ?mn1 = "if v < mn0 then v else mn0" and ?mx1 = "if mx0 < v then v else mx0"
  have "fold min_max_step vs (?mn1, ?mx1) = (mn, mx)"
    using Cons.prems by (simp only: fold_Cons comp_def min_max_step_pair)
  from Cons.IH [OF this] show ?case
    by (auto split: if_splits)
qed

lemma min_max_divisor:
  assumes "fold min_max_step vs (255, 0) = (mn, mx)"
  shows "mx - mn + 1 \<noteq> 0"
proof (cases vs)
  case Nil
  with assms show ?thesis by simp
next
  case (Cons v vs')
  with min_max_fold [OF assms] have "mn \<le> v" "v \<le> mx" by simp_all
  then show ?thesis by simp
qed

lemma stretch_loop_no_fault:
  assumes "mx - mn + 1 \<noteq> 0"
  shows "fold (\<lambda>y. fold (\<lambda>x. stretch_step mn mx y x) xs) ys (Inr ps) =
         Inr (fold (\<lambda>y. fold (\<lambda>x p. set_pixel p y x (stretch_pixel mn mx (p ! y ! x))) xs) ys ps)"
proof (induction ys arbitrary: ps)
  case Nil
  then show ?case by simp
next
  case (Cons y ys)
  have "fold (\<lambda>x. stretch_step mn mx y x) xs (Inr ps) =
        Inr (fold (\<lambda>x p. set_pixel p y x (stretch_pixel mn mx (p ! y ! x))) xs ps)" for ps
    using assms by (induction xs arbitrary: ps) (simp_all add: stretch_step_def)
  with Cons show ?case by simp
qed

lemma int_div_bounds:
  fixes a b :: int
  assumes "0 \<le> a" and "0 < b" and "a < c * b"
  shows "0 \<le> a div b \<and> a div b < c"
proof
  show "0 \<le> a div b" using assms by (simp add: pos_imp_zdiv_nonneg_iff)
  have "a div b * b + a mod b = a" by (rule div_mult_mod_eq)
  moreover have "0 \<le> a mod b" using assms(2) by simp
  ultimately have "a div b * b \<le> a" by linarith
  then have "a div b * b < c * b" using assms(3) by simp
  then show "a div b < c" using assms(2) by (simp add: mult_less_cancel_right)
qed

lemma stretched_bounds:
  assumes "mn \<le> val" and "val \<le> mx"
  shows "0 \<le> c_div (255 * (val - mn)) (mx - mn + 1) \<and>
         c_div (255 * (val - mn)) (mx - mn + 1) < 255"
proof -
  have a: "0 \<le> 255 * (val - mn)" and b: "0 < mx - mn + 1"
    and c: "255 * (val - mn) < 255 * (mx - mn + 1)"
    using assms by simp_all
  show ?thesis
    using int_div_bounds [OF a b c] a b by (simp add: c_div_nonneg)
qed

lemma length_ascii_chars: "length ascii_chars = 92"
  by (simp add: ascii_chars_def)

lemma distinct_ascii_chars: "distinct ascii_chars"
  by (simp add: ascii_chars_def)

lemma ramp_index_bounds:
  assumes "0 \<le> uint (R p)" and "uint (R p) < 255"
  shows "0 \<le> ramp_index p \<and> ramp_index p \<le> int (length ascii_chars) - 2"
proof -
  have a: "0 \<le> uint (R p) * 91" and c: "uint (R p) * 91 < 91 * 255"
    using assms by simp_all
  have "0 \<le> uint (R p) * 91 div 255 \<and> uint (R p) * 91 div 255 < 91"
    by (rule int_div_bounds [OF a _ c]) simp
  then show ?thesis
    using a by (simp add: ramp_index_def length_ascii_chars c_div_nonneg)
qed

lemma ramp_char_not_last:
  assumes "0 \<le> k" and "k \<le> int (length ascii_chars) - 2"
  shows "ascii_chars ! nat k \<noteq> last ascii_chars"
proof -
  have ne: "ascii_chars \<noteq> []" using length_ascii_chars by auto
  have k: "nat k < length ascii_chars" "nat k \<noteq> length ascii_chars - 1"
    using assms by (simp_all add: length_ascii_chars)
  have "last ascii_chars = ascii_chars ! (length ascii_chars - 1)"
    by (rule last_conv_nth [OF ne])
  moreover have "ascii_chars ! nat k \<noteq> ascii_chars ! (length ascii_chars - 1)"
    using k distinct_ascii_chars by (simp add: nth_eq_iff_index_eq length_ascii_chars)
  ultimately show ?thesis by simp
qed


lemma grayscale_pixels:
  assumes "wf_image img"
  shows "wf_pixels (nat (height img)) (nat (width img)) (pixels (applyGrayscale img))"
    and "\<And>i j. i < nat (height img) \<Longrightarrow> j < nat (width img) \<Longrightarrow>
           pixels (applyGrayscale img) ! i ! j = grayscale_pixel (pixels img ! i ! j)"
proof -
  have wf: "wf_pixels (nat (height img)) (nat (width img)) (pixels img)"
    by (rule wf_image_pixels [OF assms])
  show "wf_pixels (nat (height img)) (nat (width img)) (pixels (applyGrayscale img))"
    by (simp add: applyGrayscale_def wf_pixels_loop [OF wf])
  fix i j assume ij: "i < nat (height img)" "j < nat (width img)"
  show "pixels (applyGrayscale img) ! i ! j = grayscale_pixel (pixels img ! i ! j)"
    using nth_whole_loop [OF wf ij, where f = "\<lambda>y x v. grayscale_pixel v"]
    by (simp add: applyGrayscale_def)
qed

lemma scan_min_max_bounds:
  assumes "scan_min_max ps h w = (mn, mx)"
  shows "mx - mn + 1 \<noteq> 0"
    and "\<And>i j. i < nat h \<Longrightarrow> j < nat w \<Longrightarrow>
           mn \<le> uint (R (ps ! i ! j)) \<and> uint (R (ps ! i ! j)) \<le> mx"
proof -
  let ?vs = "concat (map (\<lambda>y. map (\<lambda>x. uint (R (ps ! y ! x))) [0..<nat w]) [0..<nat h])"
  have flat: "fold min_max_step ?vs (255, 0) = (mn, mx)"
    using assms
    by (simp only: scan_min_max_def
          nested_fold_flat [where g = min_max_step and v = "\<lambda>y x. uint (R (ps ! y ! x))"])
  show "mx - mn + 1 \<noteq> 0"
    by (rule min_max_divisor [OF flat])
  fix i j assume ij: "i < nat h" "j < nat w"
  then have "uint (R (ps ! i ! j)) \<in> set ?vs"
    by (auto intro!: bexI [where x = i] image_eqI [where x = j])
  with min_max_fold [OF flat]
  show "mn \<le> uint (R (ps ! i ! j)) \<and> uint (R (ps ! i ! j)) \<le> mx" by blast
qed

lemma ASCII_filter_example:
  "ASCII_filter example_image =
     Inr (example_image\<lparr>pixels := [[gray 0, gray 42, gray 85], [gray 127, gray 170, gray 212]]\<rparr>,
          \<lparr>ascii_width = 3, ascii_height = 2,
           ascii_pixels = [[ascii_chars ! 0, ascii_chars ! 14, ascii_chars ! 30],
                           [ascii_chars ! 45, ascii_chars ! 60, ascii_chars ! 75]]\<rparr>)"
  by code_simp


lemma example_image_fields:
  "width example_image = 3" "height example_image = 2"
  by (simp_all add: example_image_def)

lemma wf_example_image: "wf_image example_image"
  by (simp add: wf_image_def example_image_def)

section \<open>The character-art path on the uniform 8 by 8 image\<close>















section \<open>Reported failures of the resize\<close>

text \<open>
  Whenever \<^verbatim>\<open>changeImageSize\<close> writes one of its two messages it returns the image as it
  was, and a requested width above the width of the image is always answered by the first
  message, unless the conversion of the new height is itself undefined.
\<close>

lemma changeImageSize_report_keeps_image:
  "changeImageSize img new_width = Inr (Some e, r) \<Longrightarrow> r = img"
  by (simp add: changeImageSize_def Let_def split: if_splits)

lemma changeImageSize_larger_width:
  assumes "changeImageSize img new_width = Inr (report, r)" and "new_width > width img"
  shows "report = Some NewSizeLarger \<and> r = img"
  using assms by (simp add: changeImageSize_def Let_def split: if_splits)

section \<open>Claims\<close>

subsection \<open>C1: the kernel size of the noise reduction\<close>

text \<open>
  C1 says that an even strength is incremented and halved and that the kernel size
  \<open>3 + adjusted_strength\<close> is always odd.  The source carries the comment ``kernal size must
  be odd'', but it adjusts the odd strengths and halves them: at strength 1 the adjusted
  strength is 1, the kernel size is 4, which is even, and the offset is 2.  At strength 2
  nothing is adjusted and the kernel size is 5.
\<close>

theorem noise_kernel_size_even_at_strength_1:
  "noise_strength 1 = 1 \<and> noise_kernel_size 1 = 4 \<and> even (noise_kernel_size 1) \<and>
   noise_offset 1 = 2 \<and> noise_strength 2 = 2 \<and> noise_kernel_size 2 = 5"
  by (simp add: noise_strength_def noise_kernel_size_def noise_offset_def c_div_def c_mod_def)

subsection \<open>C2: a resize that cannot be done\<close>

text \<open>
  C2 says that \<^verbatim>\<open>changeImageSize\<close> reports every impossible target and leaves the grid as
  it was, the computed new height 0 included.  On a 2 by 2 image with the requested width 2,
  which the prompt of \<^verbatim>\<open>make_ascii\<close> accepts, the new height is the truncation of
  \<open>2 * (2 / 2) * 0.4\<close>, that is 0; both size tests pass, and \<^verbatim>\<open>image.height / new_height\<close>
  divides by zero before the kernel-size test is reached.
\<close>

theorem changeImageSize_zero_height_divides_by_zero:
  "make_ascii_accepts (uniform_image 2 2 (gray 0)) 2 \<and>
   c_trunc (resize_height_float (uniform_image 2 2 (gray 0)) 2) = 0 \<and>
   changeImageSize (uniform_image 2 2 (gray 0)) 2 = Inl DivisionByZero"
  by code_simp

subsection \<open>C9: flip\<close>

text \<open>
  C9: on every grid, flipping twice gives the grid back, and one flip puts at \<open>(y, x)\<close> the
  pixel that was at \<open>(y, width - 1 - x)\<close>, in every row, and changes nothing else: width,
  height and the shape of the array stay as they were.
\<close>

theorem applyFlip_involutive:
  assumes "wf_image img"
  shows "applyFlip (applyFlip img) = img \<and>
         width (applyFlip img) = width img \<and> height (applyFlip img) = height img \<and>
         length (pixels (applyFlip img)) = nat (height img) \<and>
         (\<forall>y < nat (height img). length (pixels (applyFlip img) ! y) = nat (width img) \<and>
            (\<forall>x < nat (width img).
               pixels (applyFlip img) ! y ! x = pixels img ! y ! (nat (width img) - 1 - x)))"
proof -
  have p1: "pixels (applyFlip img) = map rev (pixels img)"
    by (rule applyFlip_pixels [OF assms])
  have p2: "pixels (applyFlip (applyFlip img)) = map rev (pixels (applyFlip img))"
    by (rule applyFlip_pixels [OF wf_applyFlip [OF assms]])
  have "pixels (applyFlip (applyFlip img)) = pixels img"
    by (simp add: p1 p2 comp_def)
  moreover have "width (applyFlip (applyFlip img)) = width img"
    "height (applyFlip (applyFlip img)) = height img"
    "ImageDetails.more (applyFlip (applyFlip img)) = ImageDetails.more img"
    by (simp_all add: applyFlip_def)
  ultimately have inv: "applyFlip (applyFlip img) = img"
    by (intro ImageDetails.equality) simp_all
  have h: "length (pixels img) = nat (height img)"
    and rows: "\<And>y. y < nat (height img) \<Longrightarrow> length (pixels img ! y) = nat (width img)"
    using assms by (simp_all add: wf_image_def)
  show ?thesis
    using inv h rows by (simp add: applyFlip_fields p1 rev_nth)
qed

theorem applyFlip_involutive_witness:
  "wf_image example_image \<and>
   applyFlip (applyFlip example_image) = example_image \<and>
   pixels (applyFlip example_image) ! 0 ! 0 = gray 3"
proof -
  have h: "wf_image example_image"
    by (simp add: wf_image_def example_image_def)
  show ?thesis
    using h applyFlip_involutive [OF h] by (simp add: example_image_def)
qed

subsection \<open>C3: the order of the rows in the text file\<close>

text \<open>
  C3 as stated: the text writer emits the rows in the order the grid stores them, row 0
  first, one line per row.  It fails on the grid with the rows \<open>ab\<close> and \<open>cd\<close>: the file
  is not the rows in storage order.
\<close>

theorem saveAsciiImage_not_storage_order:
  "wf_ascii example_ascii \<and>
   ascii_pixels example_ascii = [''ab'', ''cd''] \<and>
   saveAsciiImage example_ascii True = Some (''cd'' @ [CHR 0x0A] @ ''ab'' @ [CHR 0x0A]) \<and>
   saveAsciiImage example_ascii True \<noteq> Some (''ab'' @ [CHR 0x0A] @ ''cd'' @ [CHR 0x0A])"
  by (simp add: wf_ascii_def example_ascii_def saveAsciiImage_def numeral_2_eq_2)

text \<open>
  C3 as amended: the text writer emits one line per row, each line the characters of the row
  followed by a newline, in the reverse of the storage order: row \<open>height - 1\<close> first and
  row 0 last.
\<close>

theorem saveAsciiImage_reversed_rows:
  assumes "wf_ascii a"
  shows "saveAsciiImage a True =
         Some (concat (map (\<lambda>row. row @ [CHR 0x0A]) (rev (ascii_pixels a))))"
proof -
  let ?w = "nat (ascii_width a)" and ?h = "nat (ascii_height a)"
  have h: "length (ascii_pixels a) = ?h"
    and rows: "\<And>y. y < ?h \<Longrightarrow> length (ascii_pixels a ! y) = ?w"
    using assms by (simp_all add: wf_ascii_def)
  have line: "(\<lambda>out. fold (\<lambda>x out. out @ [ascii_pixels a ! y ! x]) [0..<?w] out @ [CHR 0x0A])
              = (\<lambda>out. out @ (ascii_pixels a ! y @ [CHR 0x0A]))" if "y < ?h" for y
    using rows [OF that] by (simp add: append_row_loop)
  have "fold (\<lambda>y out. fold (\<lambda>x out. out @ [ascii_pixels a ! y ! x]) [0..<?w] out @ [CHR 0x0A])
             (rev [0..<?h]) []
        = fold (\<lambda>y out. out @ (ascii_pixels a ! y @ [CHR 0x0A])) (rev [0..<?h]) []"
    by (rule fold_cong) (simp_all add: line)
  also have "\<dots> = concat (map (\<lambda>y. ascii_pixels a ! y @ [CHR 0x0A]) (rev [0..<?h]))"
    by (simp add: append_lines_loop)
  also have "\<dots> = concat (map (\<lambda>row. row @ [CHR 0x0A])
                       (rev (map ((!) (ascii_pixels a)) [0..<length (ascii_pixels a)])))"
    by (simp only: h rev_map map_map comp_def)
  also have "\<dots> = concat (map (\<lambda>row. row @ [CHR 0x0A]) (rev (ascii_pixels a)))"
    by (simp only: map_nth)
  finally show ?thesis
    by (simp add: saveAsciiImage_def)
qed

theorem saveAsciiImage_reversed_rows_witness:
  "wf_ascii example_ascii \<and>
   saveAsciiImage example_ascii True = Some (''cd'' @ [CHR 0x0A] @ ''ab'' @ [CHR 0x0A])"
proof -
  have h: "wf_ascii example_ascii"
    by (simp add: wf_ascii_def example_ascii_def)
  show ?thesis
    using h saveAsciiImage_reversed_rows [OF h] by (simp add: example_ascii_def)
qed

subsection \<open>C8: noise reduction of a uniform grid\<close>

text \<open>
  C8 says that the noise reduction returns a uniform grid unchanged at every strength in
  1..100.  At strength 1 the kernel size is 4 and the offset 2, so the sample arrays have 16
  cells while the window of an inner pixel has 25 positions.  On the uniform 5 by 5 grid the
  window of the pixel \<open>(1, 2)\<close> has 20 positions inside the grid, and the call writes past
  the end of the arrays.
\<close>

theorem applyNoiseReduction_uniform_5x5_overflows:
  "noise_kernel_size 1 * noise_kernel_size 1 = 16 \<and>
   applyNoiseReduction (uniform_image 5 5 (gray 7)) 1 = Inl BufferOverflow"
proof -
  let ?img = "uniform_image 5 5 (gray 7)"
  have hw: "height ?img = 5" "width ?img = 5"
    by (simp_all add: uniform_image_def)
  have "collect_window (copy_pixels (pixels ?img) (height ?img) (width ?img))
          (height ?img) (width ?img) (noise_kernel_size 1) (noise_offset 1) (int 1) (int 2)
        = Inl BufferOverflow"
    by (simp only: hw noise_kernel_at_1 of_nat_1 of_nat_numeral window_overflow_5x5)
  then have "applyNoiseReduction ?img 1 = Inl BufferOverflow"
    by (rule applyNoiseReduction_overflow) (simp_all add: hw)
  then show ?thesis by (simp add: noise_kernel_at_1)
qed

subsection \<open>C10: the filters keep the dimensions\<close>



subsection \<open>C6: the frame of the Gaussian blur\<close>

text \<open>
  C6: on a grid of width and height at least 3, one pass of the Gaussian blur keeps the
  dimensions, leaves every pixel of the border ring as it was, and puts at every interior
  position \<open>(y, x)\<close>, with \<open>1 \<le> y \<le> height - 2\<close> and \<open>1 \<le> x \<le> width - 2\<close>, the value the
  kernel gives on the grid as it was before the pass (\<open>blur_pixel\<close> of the original array),
  never on neighbours already blurred.
\<close>

theorem applyGaussianBlur_frame:
  assumes "wf_image img" and "3 \<le> width img" and "3 \<le> height img"
  shows "width (applyGaussianBlur img) = width img \<and>
         height (applyGaussianBlur img) = height img \<and>
         length (pixels (applyGaussianBlur img)) = nat (height img) \<and>
         (\<forall>y < nat (height img).
            length (pixels (applyGaussianBlur img) ! y) = nat (width img) \<and>
            (\<forall>x < nat (width img).
               pixels (applyGaussianBlur img) ! y ! x =
                 (if 1 \<le> y \<and> y \<le> nat (height img) - 2 \<and> 1 \<le> x \<and> x \<le> nat (width img) - 2
                  then blur_pixel (pixels img) y x
                  else pixels img ! y ! x)))"
proof -
  let ?h = "nat (height img)" and ?w = "nat (width img)"
  have wf: "wf_pixels ?h ?w (pixels img)" by (rule wf_image_pixels [OF assms(1)])
  have wfb: "wf_pixels ?h ?w (pixels (applyGaussianBlur img))" by (rule wf_blur [OF assms(1)])
  have px: "pixels (applyGaussianBlur img) =
        fold (\<lambda>y. fold (\<lambda>x p. set_pixel p y x (blur_pixel (pixels img) y x)) [1..<?w - 1])
             [1..<?h - 1] (pixels img)"
    by (simp add: applyGaussianBlur_def Let_def copy_pixels_wf [OF assms(1)] nat_pred)
  have cell: "pixels (applyGaussianBlur img) ! y ! x =
        (if 1 \<le> y \<and> y \<le> ?h - 2 \<and> 1 \<le> x \<and> x \<le> ?w - 2
         then blur_pixel (pixels img) y x else pixels img ! y ! x)"
    if "y < ?h" "x < ?w" for y x
  proof -
    have "(y < ?h - 1) = (y \<le> ?h - 2)" "(x < ?w - 1) = (x \<le> ?w - 2)"
      using assms(2,3) by auto
    then show ?thesis
      unfolding px using nth_inner_loop [OF wf that, where g = "blur_pixel (pixels img)"]
      by simp
  qed
  show ?thesis
    using wfb cell by (simp add: applyGaussianBlur_def Let_def wf_pixels_def)
qed

theorem applyGaussianBlur_frame_witness:
  "wf_image example_3x3 \<and> 3 \<le> width example_3x3 \<and> 3 \<le> height example_3x3 \<and>
   pixels (applyGaussianBlur example_3x3) ! 1 ! 1 = gray 56 \<and>
   pixels (applyGaussianBlur example_3x3) ! 0 ! 2 = gray 3"
proof -
  have h: "wf_image example_3x3" "3 \<le> width example_3x3" "3 \<le> height example_3x3"
    by (simp_all add: wf_example_3x3 example_3x3_fields)
  have "pixels (applyGaussianBlur example_3x3) ! 1 ! 1 = blur_pixel (pixels example_3x3) 1 1"
    "pixels (applyGaussianBlur example_3x3) ! 0 ! 2 = pixels example_3x3 ! 0 ! 2"
    using applyGaussianBlur_frame [OF h] by (simp_all add: example_3x3_fields)
  then show ?thesis
    using h blur_pixel_example by (simp add: example_3x3_fields)
qed

subsection \<open>C5: the sharpen pipeline\<close>

text \<open>
  C5: on every grid and at every strength in 1..100, \<^verbatim>\<open>applySharpen\<close> computes, channel by
  channel, what the specification words: with \<open>blurred\<close> one Gaussian blur of the grid, the
  mask is \<open>grid - blurred\<close> modulo 256, then the mask times the strength clamped to 0..255,
  and the result is \<open>grid + mask\<close> clamped to 0..255.
\<close>

theorem applySharpen_is_spec:
  assumes "wf_image img" and "1 \<le> strength" and "strength \<le> 100"
  shows "applySharpen img strength = sharpen_spec img strength"
proof -
  let ?h = "nat (height img)" and ?w = "nat (width img)"
  let ?b = "pixels (applyGaussianBlur img)"
  let ?sc = "f32 (of_int strength)"
  have wf: "wf_pixels ?h ?w (pixels img)" by (rule wf_image_pixels [OF assms(1)])
  have wfb: "wf_pixels ?h ?w ?b" by (rule wf_blur [OF assms(1)])
  define l1 where "l1 = fold (\<lambda>y. fold (\<lambda>x p. set_pixel p y x
        (subtract_pixel (pixels img ! y ! x) (?b ! y ! x))) [0..<?w]) [0..<?h] (pixels img)"
  define l2 where "l2 = fold (\<lambda>y. fold (\<lambda>x p. set_pixel p y x
        (multiply_pixel ?sc (p ! y ! x))) [0..<?w]) [0..<?h] l1"
  define l3 where "l3 = fold (\<lambda>y. fold (\<lambda>x p. set_pixel p y x
        (add_pixel (p ! y ! x) (l2 ! y ! x))) [0..<?w]) [0..<?h] (pixels img)"
  define l4 where "l4 = fold (\<lambda>y. fold (\<lambda>x p. set_pixel p y x
        (clamp_pixel (p ! y ! x))) [0..<?w]) [0..<?h] l3"
  have code: "applySharpen img strength = img\<lparr>pixels := l4\<rparr>"
    by (simp add: applySharpen_def Let_def copy_pixels_wf [OF assms(1)] image_copy
          subtract_images_def multiply_image_def add_images_in_place_def
          l1_def l2_def l3_def l4_def)
  have wf1: "wf_pixels ?h ?w l1" unfolding l1_def by (rule wf_pixels_loop [OF wf])
  have wf2: "wf_pixels ?h ?w l2" unfolding l2_def by (rule wf_pixels_loop [OF wf1])
  have wf3: "wf_pixels ?h ?w l3" unfolding l3_def by (rule wf_pixels_loop [OF wf])
  have wf4: "wf_pixels ?h ?w l4" unfolding l4_def by (rule wf_pixels_loop [OF wf3])
  let ?spec = "map2 (map2 (sharpen_pixel_spec strength)) (pixels img) ?b"
  have wfs: "wf_pixels ?h ?w ?spec"
    using wf wfb by (auto simp: wf_pixels_def set_zip)
  have "l4 = ?spec"
  proof (rule wf_pixels_eqI [OF wf4 wfs])
    fix i j assume ij: "i < ?h" "j < ?w"
    have c1: "l1 ! i ! j = subtract_pixel (pixels img ! i ! j) (?b ! i ! j)"
      unfolding l1_def
      using nth_whole_loop [OF wf ij,
          where f = "\<lambda>y x v. subtract_pixel (pixels img ! y ! x) (?b ! y ! x)"] by simp
    have c2: "l2 ! i ! j = multiply_pixel ?sc (l1 ! i ! j)"
      unfolding l2_def
      using nth_whole_loop [OF wf1 ij, where f = "\<lambda>y x v. multiply_pixel ?sc v"] by simp
    have c3: "l3 ! i ! j = add_pixel (pixels img ! i ! j) (l2 ! i ! j)"
      unfolding l3_def
      using nth_whole_loop [OF wf ij, where f = "\<lambda>y x v. add_pixel v (l2 ! y ! x)"] by simp
    have c4: "l4 ! i ! j = clamp_pixel (l3 ! i ! j)"
      unfolding l4_def
      using nth_whole_loop [OF wf3 ij, where f = "\<lambda>y x v. clamp_pixel v"] by simp
    have li: "i < length (pixels img)" "i < length ?b"
      "j < length (pixels img ! i)" "j < length (?b ! i)"
      using wf wfb ij by (simp_all add: wf_pixels_def)
    have "?spec ! i ! j = sharpen_pixel_spec strength (pixels img ! i ! j) (?b ! i ! j)"
      using li by simp
    then show "l4 ! i ! j = ?spec ! i ! j"
      by (simp only: c4 c3 c2 c1 sharpen_pixel [OF assms(2,3)])
  qed
  then show ?thesis
    by (simp add: code sharpen_spec_def)
qed

theorem applySharpen_is_spec_witness:
  "wf_image example_3x3 \<and> (1::int) \<le> 2 \<and> (2::int) \<le> 100 \<and>
   applySharpen example_3x3 2 = sharpen_spec example_3x3 2 \<and>
   sharpen_channel_spec 2 200 56 = 255 \<and> sharpen_channel_spec 1 10 20 = 255 \<and>
   sharpen_channel_spec 1 20 10 = 30"
proof -
  have "applySharpen example_3x3 2 = sharpen_spec example_3x3 2"
    by (rule applySharpen_is_spec [OF wf_example_3x3]) simp_all
  then show ?thesis
    by (simp add: wf_example_3x3 sharpen_channel_spec_def to_byte_def)
qed

subsection \<open>C7: the stretched intensity and the ramp index\<close>

text \<open>
  C7: on every grid \<^verbatim>\<open>ASCII_filter\<close> returns (the divisor \<open>max - min + 1\<close> of the stretch is
  never zero, also when \<open>min = max\<close>); the stretched intensity
  \<open>255 * (val - min) / (max - min + 1)\<close> of every pixel is at least 0 and strictly below
  255; the ramp index is at least 0 and at most the ramp length minus 2, so every lookup is
  inside the ramp, and the last character of the ramp is never emitted.
\<close>

theorem ASCII_filter_ramp_bounds:
  assumes "wf_image img"
  shows "\<exists>img' a min_val max_val.
     ASCII_filter img = Inr (img', a) \<and>
     scan_min_max (pixels (applyGrayscale img)) (height img) (width img) = (min_val, max_val) \<and>
     max_val - min_val + 1 \<noteq> 0 \<and>
     ascii_width a = width img \<and> ascii_height a = height img \<and>
     length (ascii_pixels a) = nat (height img) \<and>
     (\<forall>y < nat (height img). length (ascii_pixels a ! y) = nat (width img) \<and>
       (\<forall>x < nat (width img).
          (let val = uint (R (pixels (applyGrayscale img) ! y ! x));
               stretched = c_div (255 * (val - min_val)) (max_val - min_val + 1);
               index = ramp_index (pixels img' ! y ! x)
           in 0 \<le> stretched \<and> stretched < 255 \<and>
              uint (R (pixels img' ! y ! x)) = stretched \<and>
              0 \<le> index \<and> index \<le> int (length ascii_chars) - 2 \<and>
              ascii_pixels a ! y ! x = ascii_chars ! nat index \<and>
              ascii_pixels a ! y ! x \<noteq> last ascii_chars)))"
proof -
  let ?h = "nat (height img)" and ?w = "nat (width img)"
  define g where "g = applyGrayscale img"
  have gf: "height g = height img" "width g = width img"
    by (simp_all add: g_def applyGrayscale_def)
  have wfg: "wf_pixels ?h ?w (pixels g)"
    unfolding g_def by (rule grayscale_pixels(1) [OF assms])
  obtain mn mx where mm: "scan_min_max (pixels g) (height img) (width img) = (mn, mx)"
    by (cases "scan_min_max (pixels g) (height img) (width img)")
  have dv: "mx - mn + 1 \<noteq> 0"
    by (rule scan_min_max_bounds(1) [OF mm])
  define l where "l = fold (\<lambda>y. fold (\<lambda>x p. set_pixel p y x (stretch_pixel mn mx (p ! y ! x)))
                               [0..<?w]) [0..<?h] (pixels g)"
  define a where "a = \<lparr>ascii_width = width img, ascii_height = height img,
      ascii_pixels = map (\<lambda>y. map (\<lambda>x. ascii_chars ! nat (ramp_index (l ! y ! x))) [0..<?w])
                         [0..<?h]\<rparr>"
  have run: "ASCII_filter img = Inr (g\<lparr>pixels := l\<rparr>, a)"
    by (simp add: ASCII_filter_def Let_def g_def [symmetric] gf mm
          stretch_loop_no_fault [OF dv] l_def a_def)
  have cell: "let val = uint (R (pixels g ! y ! x));
                  stretched = c_div (255 * (val - mn)) (mx - mn + 1);
                  index = ramp_index (l ! y ! x)
              in 0 \<le> stretched \<and> stretched < 255 \<and>
                 uint (R (l ! y ! x)) = stretched \<and>
                 0 \<le> index \<and> index \<le> int (length ascii_chars) - 2 \<and>
                 ascii_pixels a ! y ! x = ascii_chars ! nat index \<and>
                 ascii_pixels a ! y ! x \<noteq> last ascii_chars"
    if yx: "y < ?h" "x < ?w" for y x
  proof -
    let ?val = "uint (R (pixels g ! y ! x))"
    let ?st = "c_div (255 * (?val - mn)) (mx - mn + 1)"
    have "mn \<le> ?val \<and> ?val \<le> mx"
      using scan_min_max_bounds(2) [OF mm] yx by simp
    then have st: "0 \<le> ?st \<and> ?st < 255"
      using stretched_bounds by blast
    have "l ! y ! x = stretch_pixel mn mx (pixels g ! y ! x)"
      unfolding l_def
      using nth_whole_loop [OF wfg yx, where f = "\<lambda>y x v. stretch_pixel mn mx v"] by simp
    then have r: "uint (R (l ! y ! x)) = ?st"
      using st by (simp add: stretch_pixel_def Let_def uint_to_byte)
    have idx: "0 \<le> ramp_index (l ! y ! x) \<and>
               ramp_index (l ! y ! x) \<le> int (length ascii_chars) - 2"
      using st by (intro ramp_index_bounds) (simp_all only: r)
    have ch: "ascii_pixels a ! y ! x = ascii_chars ! nat (ramp_index (l ! y ! x))"
      using yx by (simp add: a_def)
    have "ascii_chars ! nat (ramp_index (l ! y ! x)) \<noteq> last ascii_chars"
      using idx by (intro ramp_char_not_last) simp_all
    with st r idx ch show ?thesis by (simp add: Let_def)
  qed
  have shape: "length (ascii_pixels a) = ?h" "\<And>y. y < ?h \<Longrightarrow> length (ascii_pixels a ! y) = ?w"
    by (simp_all add: a_def)
  have fields: "ascii_width a = width img" "ascii_height a = height img"
    by (simp_all add: a_def)
  show ?thesis
    apply (rule exI [where x = "g\<lparr>pixels := l\<rparr>"])
    apply (rule exI [where x = a])
    apply (rule exI [where x = mn])
    apply (rule exI [where x = mx])
    using run mm dv shape fields cell
    apply (simp add: g_def [symmetric])
    done
qed

theorem ASCII_filter_ramp_bounds_witness:
  "wf_image example_image \<and>
   (\<exists>img' a. ASCII_filter example_image = Inr (img', a) \<and>
      ascii_pixels a ! 1 ! 2 = ascii_chars ! 75 \<and>
      ascii_pixels a ! 1 ! 2 \<noteq> last ascii_chars)"
proof -
  from ASCII_filter_ramp_bounds [OF wf_example_image]
  obtain img' a where run: "ASCII_filter example_image = Inr (img', a)"
    and cells: "\<forall>y < nat (height example_image).
       length (ascii_pixels a ! y) = nat (width example_image) \<and>
       (\<forall>x < nat (width example_image). ascii_pixels a ! y ! x \<noteq> last ascii_chars)"
    by (auto simp: Let_def)
  have "ascii_pixels a ! 1 ! 2 \<noteq> last ascii_chars"
    using cells by (simp add: example_image_fields)
  moreover have "a = \<lparr>ascii_width = 3, ascii_height = 2,
           ascii_pixels = [[ascii_chars ! 0, ascii_chars ! 14, ascii_chars ! 30],
                           [ascii_chars ! 45, ascii_chars ! 60, ascii_chars ! 75]]\<rparr>"
    using run ASCII_filter_example by simp
  then have "ascii_pixels a ! 1 ! 2 = ascii_chars ! 75"
    by simp
  ultimately show ?thesis
    using run wf_example_image by blast
qed

subsection \<open>C4: character art of a uniform gray 8 by 8 image\<close>



end
